theory Spec2Isabelle
  imports Main "HOL-Library.Sublist" "HOL-Library.AList"
begin

section \<open>Request client (services/apiClient.ts)\<close>

subsection \<open>Values of the runtime\<close>

text \<open>
  A JavaScript \<open>Error\<close> object, reduced to the two properties the client reads:
  \<open>name\<close> and \<open>message\<close>. \<open>new Error(m)\<close> has the name \<open>Error\<close>.
\<close>

record js_error =
  name :: string
  message :: string

definition new_Error :: "string \<Rightarrow> js_error" where
  "new_Error m = \<lparr>name = ''Error'', message = m\<rparr>"

text \<open>What a \<open>catch\<close> clause can receive: an \<open>Error\<close> instance or any other value.\<close>

datatype thrown = ErrorObj js_error | NonError

text \<open>
  What a call finally raises. \<open>RaisedUndefined\<close> is the \<open>throw lastError!\<close> after a loop
  that never ran, where \<open>lastError\<close> was never assigned.
\<close>

datatype raised = Raised js_error | RaisedUndefined

text \<open>\<open>String.prototype.includes\<close>: the needle occurs as a contiguous run of the haystack.\<close>

fun str_includes :: "string \<Rightarrow> string \<Rightarrow> bool" where
  "str_includes [] sub = (sub = [])"
| "str_includes (c # cs) sub = (prefix sub (c # cs) \<or> str_includes cs sub)"

text \<open>Decimal rendering of a number inside a template literal.\<close>

definition digit_char :: "nat \<Rightarrow> char" where
  "digit_char d = ''0123456789'' ! d"

fun string_of_nat :: "nat \<Rightarrow> string" where
  "string_of_nat n =
     (if n < 10 then [digit_char n]
      else string_of_nat (n div 10) @ [digit_char (n mod 10)])"

declare string_of_nat.simps [simp del]

subsection \<open>Requests and responses\<close>

text \<open>
  \<open>RequestConfig\<close>: the fields of \<open>RequestInit\<close> the client touches, and the three
  options the client adds. Every field is optional in the source.
\<close>

record RequestConfig =
  http_method :: "string option"
  body :: "string option"
  headers :: "string \<rightharpoonup> string"
  timeout :: "int option"
  retries :: "int option"
  retryDelay :: "int option"

record ApiClientConfig =
  baseUrl :: string
  default_timeout :: int
  default_retries :: int
  default_retryDelay :: int

text \<open>The constructor's defaults (the base URL is read from the environment).\<close>

definition default_config :: "string \<Rightarrow> ApiClientConfig" where
  "default_config url =
     \<lparr>baseUrl = url, default_timeout = 30000, default_retries = 3, default_retryDelay = 1000\<rparr>"

text \<open>
  The body of a response as \<open>response.json()\<close> sees it: either it does not parse (the
  promise rejects with a \<open>SyntaxError\<close> whose message the runtime chooses), or it parses
  to a value other than \<open>null\<close>, of which the client reads the property \<open>detail\<close>
  (\<open>None\<close> when the property is absent) or which it returns whole.
\<close>

datatype 'a json_body = Unparseable string | Parsed "string option" 'a

record 'a response =
  status :: nat
  statusText :: string
  contentType :: "string option"
  payload :: "'a json_body"

definition ok :: "'a response \<Rightarrow> bool" where
  "ok r = (200 \<le> status r \<and> status r \<le> 299)"

text \<open>
  What the network does with one call of \<open>fetch\<close>: it resolves with a response or rejects
  with an error after some milliseconds, or it never settles.
\<close>

datatype 'a net = Responds nat "'a response" | Rejects nat js_error | Hangs

text \<open>What a successful call returns: the decoded JSON value or the raw response.\<close>

datatype 'a result = Data 'a | RawResponse "'a response"

text \<open>What an observer of the client sees: calls of \<open>fetch\<close> and backoff sleeps.\<close>

datatype event = Fetch nat string RequestConfig | Sleep int

subsection \<open>requestWithTimeout\<close>

text \<open>
  The abort timer is armed with the call's timeout (the client's default when the call
  gives none). The timer wins the race when the call has not settled by then.
\<close>

definition abort_error :: js_error where
  "abort_error = \<lparr>name = ''AbortError'', message = ''signal is aborted without reason''\<rparr>"

fun timer_fires_first :: "int \<Rightarrow> 'a net \<Rightarrow> bool" where
  "timer_fires_first t (Responds d r) = (t \<le> int d)"
| "timer_fires_first t (Rejects d e) = (t \<le> int d)"
| "timer_fires_first t Hangs = True"

definition effective_timeout :: "ApiClientConfig \<Rightarrow> RequestConfig \<Rightarrow> int" where
  "effective_timeout client config =
     (case timeout config of None \<Rightarrow> default_timeout client | Some t \<Rightarrow> t)"

definition requestWithTimeout ::
  "ApiClientConfig \<Rightarrow> 'a net \<Rightarrow> RequestConfig \<Rightarrow> js_error + 'a response" where
  "requestWithTimeout client n config =
     (if timer_fires_first (effective_timeout client config) n then Inl abort_error
      else case n of
             Responds d r \<Rightarrow> Inr r
           | Rejects d e \<Rightarrow> Inl e
           | Hangs \<Rightarrow> Inl abort_error)"

subsection \<open>requestWithRetry\<close>

text \<open>Request interceptors run in registration order, each on the result of the last.\<close>

definition apply_request_interceptors ::
  "(RequestConfig \<Rightarrow> RequestConfig) list \<Rightarrow> RequestConfig \<Rightarrow> RequestConfig" where
  "apply_request_interceptors qis c = fold (\<lambda>i acc. i acc) qis c"

text \<open>Response interceptors run in order; one that throws ends the attempt.\<close>

fun apply_response_interceptors ::
  "('a response \<Rightarrow> thrown + 'a response) list \<Rightarrow> 'a response \<Rightarrow> thrown + 'a response" where
  "apply_response_interceptors [] r = Inr r"
| "apply_response_interceptors (i # ris) r =
     (case i r of Inl t \<Rightarrow> Inl t | Inr r2 \<Rightarrow> apply_response_interceptors ris r2)"

text \<open>\<open>detail || fallback\<close>: an absent or empty detail is falsy.\<close>

definition detail_or :: "string option \<Rightarrow> string \<Rightarrow> string" where
  "detail_or d fallback = (case d of None \<Rightarrow> fallback | Some s \<Rightarrow> if s = [] then fallback else s)"

text \<open>The \<open>detail\<close> of \<open>errorData\<close>: the parsed body's, or the synthesized one.\<close>

definition errorData_detail :: "'a response \<Rightarrow> string option" where
  "errorData_detail r =
     (case payload r of
        Unparseable m \<Rightarrow> Some (''HTTP '' @ string_of_nat (status r) @ '': '' @ statusText r)
      | Parsed d v \<Rightarrow> d)"

text \<open>The body of the \<open>try\<close> block: one attempt.\<close>

definition attempt_once ::
  "ApiClientConfig \<Rightarrow> ('a response \<Rightarrow> thrown + 'a response) list \<Rightarrow> 'a net \<Rightarrow> RequestConfig
     \<Rightarrow> thrown + 'a result" where
  "attempt_once client ris n finalConfig =
     (case requestWithTimeout client n finalConfig of
        Inl e \<Rightarrow> Inl (ErrorObj e)
      | Inr response0 \<Rightarrow>
          (case apply_response_interceptors ris response0 of
             Inl t \<Rightarrow> Inl t
           | Inr response \<Rightarrow>
               if \<not> ok response then
                 (if 400 \<le> status response \<and> status response < 500
                  then Inl (ErrorObj (new_Error
                         (detail_or (errorData_detail response) ''Client error occurred'')))
                  else Inl (ErrorObj (new_Error
                         (detail_or (errorData_detail response) ''Server error occurred''))))
               else
                 (case contentType response of
                    None \<Rightarrow> Inr (RawResponse response)
                  | Some ct \<Rightarrow>
                      if str_includes ct ''application/json''
                      then (case payload response of
                              Unparseable m \<Rightarrow>
                                Inl (ErrorObj \<lparr>name = ''SyntaxError'', message = m\<rparr>)
                            | Parsed d v \<Rightarrow> Inr (Data v))
                      else Inr (RawResponse response))))"

text \<open>The \<open>catch\<close> clause wraps a value that is not an \<open>Error\<close>.\<close>

definition as_Error :: "thrown \<Rightarrow> js_error" where
  "as_Error t = (case t of ErrorObj e \<Rightarrow> e | NonError \<Rightarrow> new_Error ''Unknown error'')"

text \<open>The test of the \<open>catch\<close> clause that ends the loop at once.\<close>

definition no_retry :: "js_error \<Rightarrow> bool" where
  "no_retry e = (name e = ''AbortError'' \<or> str_includes (message e) ''Client error'')"

text \<open>
  The \<open>for\<close> loop from attempt number \<open>attempt\<close> on. The handler says what the network does
  at each attempt; \<open>lastError\<close> is the variable of that name (\<open>None\<close>: not yet assigned).
\<close>

function retry_loop ::
  "ApiClientConfig \<Rightarrow> ('a response \<Rightarrow> thrown + 'a response) list \<Rightarrow> (nat \<Rightarrow> 'a net)
     \<Rightarrow> string \<Rightarrow> RequestConfig \<Rightarrow> int \<Rightarrow> int \<Rightarrow> js_error option \<Rightarrow> nat
     \<Rightarrow> (raised + 'a result) \<times> event list" where
  "retry_loop client ris handler url finalConfig rs rd lastError attempt =
     (if int attempt \<le> rs then
        (case attempt_once client ris (handler attempt) finalConfig of
           Inr v \<Rightarrow> (Inr v, [Fetch attempt url finalConfig])
         | Inl t \<Rightarrow>
             let e = as_Error t in
             if no_retry e then (Inl (Raised e), [Fetch attempt url finalConfig])
             else if int attempt = rs then (Inl (Raised e), [Fetch attempt url finalConfig])
             else
               let (r, evs) = retry_loop client ris handler url finalConfig rs rd (Some e)
                                (Suc attempt)
               in (r, Fetch attempt url finalConfig # Sleep (rd * 2 ^ attempt) # evs))
      else (Inl (case lastError of None \<Rightarrow> RaisedUndefined | Some e \<Rightarrow> Raised e), []))"
  by pat_completeness auto
termination
  by (relation "measure (\<lambda>(client, ris, handler, url, finalConfig, rs, rd, lastError, attempt).
                  nat (rs + 1 - int attempt))") auto

declare retry_loop.simps [simp del]

text \<open>
  \<open>requestWithRetry\<close>: split off \<open>retries\<close> and \<open>retryDelay\<close>, build the URL, run the
  request interceptors once, put the default content type under the call's headers, loop.
\<close>

definition final_config ::
  "(RequestConfig \<Rightarrow> RequestConfig) list \<Rightarrow> RequestConfig \<Rightarrow> RequestConfig" where
  "final_config qis config =
     (let requestConfig = config\<lparr>retries := None, retryDelay := None\<rparr>;
          c = apply_request_interceptors qis requestConfig
      in c\<lparr>headers := [''Content-Type'' \<mapsto> ''application/json''] ++ headers c\<rparr>)"

definition effective_retries :: "ApiClientConfig \<Rightarrow> RequestConfig \<Rightarrow> int" where
  "effective_retries client config =
     (case retries config of None \<Rightarrow> default_retries client | Some r \<Rightarrow> r)"

definition effective_retryDelay :: "ApiClientConfig \<Rightarrow> RequestConfig \<Rightarrow> int" where
  "effective_retryDelay client config =
     (case retryDelay config of None \<Rightarrow> default_retryDelay client | Some d \<Rightarrow> d)"

definition requestWithRetry ::
  "ApiClientConfig \<Rightarrow> (RequestConfig \<Rightarrow> RequestConfig) list
     \<Rightarrow> ('a response \<Rightarrow> thrown + 'a response) list \<Rightarrow> (nat \<Rightarrow> 'a net)
     \<Rightarrow> string \<Rightarrow> RequestConfig \<Rightarrow> (raised + 'a result) \<times> event list" where
  "requestWithRetry client qis ris handler endpoint config =
     retry_loop client ris handler (baseUrl client @ endpoint) (final_config qis config)
       (effective_retries client config) (effective_retryDelay client config) None 0"

text \<open>Reading a trace: the attempts made and the delays slept.\<close>

fun is_Fetch :: "event \<Rightarrow> bool" where
  "is_Fetch (Fetch a u c) = True"
| "is_Fetch (Sleep d) = False"

definition attempts :: "event list \<Rightarrow> nat" where
  "attempts evs = length (filter is_Fetch evs)"

fun sleeps :: "event list \<Rightarrow> int list" where
  "sleeps [] = []"
| "sleeps (Fetch a u c # evs) = sleeps evs"
| "sleeps (Sleep d # evs) = d # sleeps evs"

text \<open>An empty per-call configuration, and a GET built as \<open>get\<close> builds it.\<close>

definition empty_config :: RequestConfig where
  "empty_config = \<lparr>http_method = None, body = None, headers = Map.empty, timeout = None,
                    retries = None, retryDelay = None\<rparr>"

definition get_config :: RequestConfig where
  "get_config = empty_config\<lparr>http_method := Some ''GET''\<rparr>"

section \<open>Cache store (services/cacheService.ts)\<close>

record 'a CacheItem =
  data :: 'a
  timestamp :: int
  ttl :: int
  key :: string

datatype storage = Memory | LocalStorage | SessionStorage

text \<open>The options of \<open>set\<close>; each may be left out.\<close>

record CacheOptions =
  ttl_opt :: "int option"
  storage_opt :: "storage option"
  maxSize_opt :: "nat option"

definition no_options :: CacheOptions where
  "no_options = \<lparr>ttl_opt = None, storage_opt = None, maxSize_opt = None\<rparr>"

text \<open>
  What a web storage holds under a key: the JSON text of a cache item, which parses back
  to the item, or any other text (empty, or text on which \<open>JSON.parse\<close> throws).
\<close>

datatype 'a stored = Item "'a CacheItem" | Garbage

text \<open>
  The service's \<open>Map\<close> and the two web storages, each an association list in insertion
  order (\<open>Map.set\<close> on a present key keeps its position).
\<close>

record 'a CacheService =
  memoryCache :: "(string \<times> 'a CacheItem) list"
  localStore :: "(string \<times> 'a stored) list"
  sessionStore :: "(string \<times> 'a stored) list"

definition new_CacheService :: "'a CacheService" where
  "new_CacheService = \<lparr>memoryCache = [], localStore = [], sessionStore = []\<rparr>"

definition defaultTTL :: int where
  "defaultTTL = 5 * 60 * 1000"

definition maxSize :: nat where
  "maxSize = 100"

definition getStorageKey :: "string \<Rightarrow> string" where
  "getStorageKey k = ''photo_gallery_cache_'' @ k"

definition isExpired :: "int \<Rightarrow> 'a CacheItem \<Rightarrow> bool" where
  "isExpired now item = (now - timestamp item > ttl item)"

text \<open>The \<open>forEach\<close> of \<open>evictOldest\<close>, on the pair \<open>(oldestKey, oldestTimestamp)\<close>.\<close>

definition oldest_step ::
  "string \<times> 'a CacheItem \<Rightarrow> string \<times> int \<Rightarrow> string \<times> int" where
  "oldest_step entry acc =
     (if timestamp (snd entry) < snd acc then (fst entry, timestamp (snd entry)) else acc)"

definition find_oldest :: "int \<Rightarrow> (string \<times> 'a CacheItem) list \<Rightarrow> string \<times> int" where
  "find_oldest now cache = fold oldest_step cache ('''', now)"

definition evictOldest ::
  "int \<Rightarrow> (string \<times> 'a CacheItem) list \<Rightarrow> (string \<times> 'a CacheItem) list" where
  "evictOldest now cache =
     (if length cache \<le> maxSize then cache
      else let oldestKey = fst (find_oldest now cache)
           in if oldestKey \<noteq> '''' then AList.delete oldestKey cache else cache)"

text \<open>
  \<open>set\<close>. The call reads the clock twice: \<open>now\<close> is the \<open>Date.now()\<close> that stamps the
  item, \<open>evict_now\<close> the \<open>Date.now()\<close> inside \<open>evictOldest\<close>, which runs after the item
  is in the map. \<open>write_ok\<close> says whether the write to a web storage succeeds (\<open>setItem\<close>
  throws when the quota is exceeded); a failed write goes to the memory map, with no
  eviction. The option \<open>maxSize\<close> is read and not used.
\<close>

definition effective_ttl :: "CacheOptions \<Rightarrow> int" where
  "effective_ttl options = (case ttl_opt options of None \<Rightarrow> defaultTTL | Some t \<Rightarrow> t)"

definition new_item :: "int \<Rightarrow> string \<Rightarrow> 'a \<Rightarrow> CacheOptions \<Rightarrow> 'a CacheItem" where
  "new_item now k d options =
     \<lparr>data = d, timestamp = now, ttl = effective_ttl options, key = k\<rparr>"

definition cache_set ::
  "int \<Rightarrow> int \<Rightarrow> bool \<Rightarrow> string \<Rightarrow> 'a \<Rightarrow> CacheOptions \<Rightarrow> 'a CacheService
     \<Rightarrow> 'a CacheService" where
  "cache_set now evict_now write_ok k d options c =
     (let item = new_item now k d options
      in case (case storage_opt options of None \<Rightarrow> Memory | Some s \<Rightarrow> s) of
           Memory \<Rightarrow>
             c\<lparr>memoryCache := evictOldest evict_now (AList.update k item (memoryCache c))\<rparr>
         | LocalStorage \<Rightarrow>
             if write_ok
             then c\<lparr>localStore := AList.update (getStorageKey k) (Item item) (localStore c)\<rparr>
             else c\<lparr>memoryCache := AList.update k item (memoryCache c)\<rparr>
         | SessionStorage \<Rightarrow>
             if write_ok
             then c\<lparr>sessionStore := AList.update (getStorageKey k) (Item item) (sessionStore c)\<rparr>
             else c\<lparr>memoryCache := AList.update k item (memoryCache c)\<rparr>)"

text \<open>Whether \<open>set\<close> is asked to write to the memory backend (the default).\<close>

definition asks_memory :: "CacheOptions \<Rightarrow> bool" where
  "asks_memory options = (storage_opt options = None \<or> storage_opt options = Some Memory)"

definition cache_delete :: "string \<Rightarrow> storage \<Rightarrow> 'a CacheService \<Rightarrow> 'a CacheService" where
  "cache_delete k s c =
     (case s of
        Memory \<Rightarrow> c\<lparr>memoryCache := AList.delete k (memoryCache c)\<rparr>
      | LocalStorage \<Rightarrow> c\<lparr>localStore := AList.delete (getStorageKey k) (localStore c)\<rparr>
      | SessionStorage \<Rightarrow> c\<lparr>sessionStore := AList.delete (getStorageKey k) (sessionStore c)\<rparr>)"

text \<open>The item \<open>get\<close> finds before it looks at the expiry.\<close>

definition lookup_item :: "string \<Rightarrow> storage \<Rightarrow> 'a CacheService \<Rightarrow> 'a CacheItem option" where
  "lookup_item k s c =
     (case s of
        Memory \<Rightarrow> map_of (memoryCache c) k
      | LocalStorage \<Rightarrow>
          (case map_of (localStore c) (getStorageKey k) of
             Some (Item item) \<Rightarrow> Some item | _ \<Rightarrow> None)
      | SessionStorage \<Rightarrow>
          (case map_of (sessionStore c) (getStorageKey k) of
             Some (Item item) \<Rightarrow> Some item | _ \<Rightarrow> None))"

text \<open>\<open>get\<close> at time \<open>now\<close>: the value or \<open>null\<close>, and the service after the call.\<close>

definition cache_get ::
  "int \<Rightarrow> string \<Rightarrow> storage \<Rightarrow> 'a CacheService \<Rightarrow> 'a option \<times> 'a CacheService" where
  "cache_get now k s c =
     (case lookup_item k s c of
        None \<Rightarrow> (None, c)
      | Some item \<Rightarrow>
          if isExpired now item then (None, cache_delete k s c) else (Some (data item), c))"

definition cache_size :: "storage \<Rightarrow> 'a CacheService \<Rightarrow> nat" where
  "cache_size s c =
     (case s of
        Memory \<Rightarrow> length (memoryCache c)
      | LocalStorage \<Rightarrow>
          length (filter (\<lambda>e. prefix ''photo_gallery_cache_'' (fst e)) (localStore c))
      | SessionStorage \<Rightarrow>
          length (filter (\<lambda>e. prefix ''photo_gallery_cache_'' (fst e)) (sessionStore c)))"

text \<open>The backend in which \<open>set\<close> leaves the entry.\<close>

definition landed :: "CacheOptions \<Rightarrow> bool \<Rightarrow> storage" where
  "landed options write_ok =
     (case storage_opt options of
        None \<Rightarrow> Memory
      | Some s \<Rightarrow> if write_ok then s else Memory)"

text \<open>Whether a backend holds an entry under a key.\<close>

definition holds_key :: "string \<Rightarrow> storage \<Rightarrow> 'a CacheService \<Rightarrow> bool" where
  "holds_key k s c =
     (case s of
        Memory \<Rightarrow> k \<in> fst ` set (memoryCache c)
      | LocalStorage \<Rightarrow> getStorageKey k \<in> fst ` set (localStore c)
      | SessionStorage \<Rightarrow> getStorageKey k \<in> fst ` set (sessionStore c))"

text \<open>A \<open>Map\<close> and a web storage hold a key once.\<close>

definition wf_cache :: "'a CacheService \<Rightarrow> bool" where
  "wf_cache c = (distinct (map fst (memoryCache c)) \<and> distinct (map fst (localStore c))
                 \<and> distinct (map fst (sessionStore c)))"

section \<open>Fetch hooks (hooks/useApi.ts)\<close>

subsection \<open>useApi\<close>

text \<open>The state of the hook (\<open>UseApiState\<close>), with \<open>null\<close> as \<open>None\<close>.\<close>

record 'a UseApiState =
  api_data :: "'a option"
  api_loading :: bool
  api_error :: "string option"

definition initial_api_state :: "'a UseApiState" where
  "initial_api_state = \<lparr>api_data = None, api_loading = True, api_error = None\<rparr>"

text \<open>\<open>error instanceof Error ? error.message : 'An error occurred'\<close>\<close>

definition errorMessage :: "thrown \<Rightarrow> string" where
  "errorMessage t = (case t of ErrorObj e \<Rightarrow> message e | NonError \<Rightarrow> ''An error occurred'')"

text \<open>
  \<open>fetchData\<close> in its two halves: up to the \<open>await\<close>, and from the settlement of
  \<open>apiCall()\<close> on. The second half writes the state whatever it holds.
\<close>

definition fetchData_start :: "'a UseApiState \<Rightarrow> 'a UseApiState" where
  "fetchData_start prev = prev\<lparr>api_loading := True, api_error := None\<rparr>"

definition fetchData_settle :: "thrown + 'a \<Rightarrow> 'a UseApiState \<Rightarrow> 'a UseApiState" where
  "fetchData_settle outcome prev =
     (case outcome of
        Inr d \<Rightarrow> \<lparr>api_data = Some d, api_loading = False, api_error = None\<rparr>
      | Inl t \<Rightarrow> \<lparr>api_data = None, api_loading = False, api_error = Some (errorMessage t)\<rparr>)"

definition clearError :: "'a UseApiState \<Rightarrow> 'a UseApiState" where
  "clearError prev = prev\<lparr>api_error := None\<rparr>"

text \<open>
  The hook with its calls in flight. \<open>Start i\<close> is a call of \<open>fetchData\<close> (by the effect
  or by \<open>refetch\<close>), numbered \<open>i\<close> by the observer; \<open>Settle i outcome\<close> is the settlement
  of that call's promise. The numbers are the observer's: the hook keeps none.
\<close>

datatype 'a api_event = Start nat | Settle nat "thrown + 'a" | ClearError

record 'a api_hook =
  hook_state :: "'a UseApiState"
  in_flight :: "nat list"

definition api_mount :: "'a api_hook" where
  "api_mount = \<lparr>hook_state = initial_api_state, in_flight = []\<rparr>"

fun api_step :: "'a api_event \<Rightarrow> 'a api_hook \<Rightarrow> 'a api_hook" where
  "api_step (Start i) h =
     h\<lparr>hook_state := fetchData_start (hook_state h), in_flight := in_flight h @ [i]\<rparr>"
| "api_step (Settle i outcome) h =
     (if i \<in> set (in_flight h)
      then h\<lparr>hook_state := fetchData_settle outcome (hook_state h),
             in_flight := remove1 i (in_flight h)\<rparr>
      else h)"
| "api_step ClearError h = h\<lparr>hook_state := clearError (hook_state h)\<rparr>"

definition api_run :: "'a api_event list \<Rightarrow> 'a api_hook \<Rightarrow> 'a api_hook" where
  "api_run evs h = fold api_step evs h"

subsection \<open>usePaginatedData\<close>

text \<open>The six state variables of the hook.\<close>

record 'a PaginatedState =
  allData :: "'a list"
  currentPage :: int
  hasNextPage :: bool
  loading :: bool
  error :: "string option"
  total :: int

definition initial_paginated :: "'a PaginatedState" where
  "initial_paginated = \<lparr>allData = [], currentPage = 1, hasNextPage = False, loading = False,
                         error = None, total = 0\<rparr>"

text \<open>What \<open>fetchFunction\<close> resolves with.\<close>

record 'a page_response =
  page_data :: "'a list"
  page_total :: int
  has_next :: bool

text \<open>
  The updater both paths give to \<open>setAllData\<close>; \<open>ident\<close> reads an item's \<open>id\<close>.
\<close>

definition append_new :: "('a \<Rightarrow> 'i) \<Rightarrow> 'a list \<Rightarrow> 'a list \<Rightarrow> 'a list" where
  "append_new ident incoming prev =
     (let newIds = set (map ident prev);
          newItems = filter (\<lambda>item. ident item \<notin> newIds) incoming
      in prev @ newItems)"

text \<open>\<open>loadPage\<close> up to the \<open>await\<close>, and from the settlement of the fetch on.\<close>

definition loadPage_start :: "'a PaginatedState \<Rightarrow> 'a PaginatedState" where
  "loadPage_start s = s\<lparr>loading := True, error := None\<rparr>"

definition loadPage_settle ::
  "('a \<Rightarrow> 'i) \<Rightarrow> int \<Rightarrow> bool \<Rightarrow> thrown + 'a page_response \<Rightarrow> 'a PaginatedState
     \<Rightarrow> 'a PaginatedState" where
  "loadPage_settle ident page do_append outcome s =
     (case outcome of
        Inr response \<Rightarrow>
          s\<lparr>allData := (if do_append then append_new ident (page_data response) (allData s)
                         else page_data response),
            currentPage := page, hasNextPage := has_next response,
            total := page_total response, loading := False\<rparr>
      | Inl t \<Rightarrow> s\<lparr>error := Some (errorMessage t), loading := False\<rparr>)"

text \<open>
  \<open>loadMore\<close>: the page it asks \<open>fetchFunction\<close> for, if any. The call writes no state
  variable; the state changes when the fetch settles.
\<close>

definition loadMore :: "'a PaginatedState \<Rightarrow> int option" where
  "loadMore s = (if hasNextPage s \<and> \<not> loading s then Some (currentPage s + 1) else None)"

definition loadMore_settle ::
  "('a \<Rightarrow> 'i) \<Rightarrow> int \<Rightarrow> thrown + 'a page_response \<Rightarrow> 'a PaginatedState
     \<Rightarrow> 'a PaginatedState" where
  "loadMore_settle ident nextPage outcome s =
     (case outcome of
        Inr response \<Rightarrow>
          s\<lparr>allData := append_new ident (page_data response) (allData s),
            currentPage := nextPage, hasNextPage := has_next response,
            total := page_total response\<rparr>
      | Inl t \<Rightarrow> s\<lparr>error := Some (errorMessage t)\<rparr>)"

text \<open>
  The hook with its fetches in flight: each is the page asked for and the path that asked
  (\<open>loadPage\<close> with its \<open>append\<close> flag, or \<open>loadMore\<close>).
\<close>

datatype origin = ByLoadPage bool | ByLoadMore

datatype 'a page_event =
    CallLoadPage int bool
  | CallLoadMore
  | SettleFetch nat "thrown + 'a page_response"

record 'a paginated_hook =
  pstate :: "'a PaginatedState"
  fetches :: "(origin \<times> int) list"

fun page_step :: "('a \<Rightarrow> 'i) \<Rightarrow> 'a page_event \<Rightarrow> 'a paginated_hook \<Rightarrow> 'a paginated_hook" where
  "page_step ident (CallLoadPage page do_append) h =
     h\<lparr>pstate := loadPage_start (pstate h), fetches := fetches h @ [(ByLoadPage do_append, page)]\<rparr>"
| "page_step ident CallLoadMore h =
     (case loadMore (pstate h) of
        None \<Rightarrow> h
      | Some nextPage \<Rightarrow> h\<lparr>fetches := fetches h @ [(ByLoadMore, nextPage)]\<rparr>)"
| "page_step ident (SettleFetch n outcome) h =
     (if n < length (fetches h) then
        (case fetches h ! n of
           (ByLoadPage do_append, page) \<Rightarrow>
             h\<lparr>pstate := loadPage_settle ident page do_append outcome (pstate h),
               fetches := take n (fetches h) @ drop (Suc n) (fetches h)\<rparr>
         | (ByLoadMore, nextPage) \<Rightarrow>
             h\<lparr>pstate := loadMore_settle ident nextPage outcome (pstate h),
               fetches := take n (fetches h) @ drop (Suc n) (fetches h)\<rparr>)
      else h)"

definition page_run ::
  "('a \<Rightarrow> 'i) \<Rightarrow> 'a page_event list \<Rightarrow> 'a paginated_hook \<Rightarrow> 'a paginated_hook" where
  "page_run ident evs h = fold (page_step ident) evs h"

definition loadMore_in_flight :: "'a paginated_hook \<Rightarrow> nat" where
  "loadMore_in_flight h = length (filter (\<lambda>f. fst f = ByLoadMore) (fetches h))"

section \<open>Bounded preloader (hooks/useImagePreloader.ts)\<close>

record PreloadedImage =
  src :: string
  loaded :: bool
  load_error :: bool

text \<open>
  The hook between two events of the page. \<open>preloadedImages\<close> is the state with every
  queued updater applied; \<open>rendered\<close> is the map of the last render, the one the current
  \<open>startPreloading\<close> closure reads. \<open>loadingQueue\<close> and \<open>activeLoads\<close> are the two refs
  (the \<open>Set\<close> in insertion order). The last three fields belong to the observer:
  \<open>awaiting\<close> lists the invocations of \<open>processQueue\<close> suspended at their \<open>await\<close>, each
  with the key whose load it awaits; \<open>next_invocation\<close> numbers the invocations;
  \<open>fetched\<close> logs every image load begun (\<open>img.src = src\<close>). The option
  \<open>priority\<close> only sets \<open>img.loading\<close> and is left out.
\<close>

record preloader =
  preloadedImages :: "(string \<times> PreloadedImage) list"
  rendered :: "(string \<times> PreloadedImage) list"
  isLoading :: bool
  loadingQueue :: "string list"
  activeLoads :: "string list"
  awaiting :: "(nat \<times> string) list"
  next_invocation :: nat
  fetched :: "string list"

definition initial_preloader :: preloader where
  "initial_preloader = \<lparr>preloadedImages = [], rendered = [], isLoading = False,
     loadingQueue = [], activeLoads = [], awaiting = [], next_invocation = 0, fetched = []\<rparr>"

text \<open>\<open>Set.prototype.add\<close> and \<open>Set.prototype.delete\<close>.\<close>

definition set_add :: "'a \<Rightarrow> 'a list \<Rightarrow> 'a list" where
  "set_add x xs = (if x \<in> set xs then xs else xs @ [x])"

definition set_delete :: "'a \<Rightarrow> 'a list \<Rightarrow> 'a list" where
  "set_delete x xs = removeAll x xs"

text \<open>
  The \<open>while\<close> loop of invocation \<open>iv\<close> of \<open>processQueue\<close>, from the loop test to the
  next \<open>await\<close> (where the invocation is suspended with its key active and its load
  begun) or to the end of the function.
\<close>

function processQueue_loop :: "nat \<Rightarrow> nat \<Rightarrow> preloader \<Rightarrow> preloader" where
  "processQueue_loop maxConcurrent iv s =
     (if loadingQueue s \<noteq> [] \<and> length (activeLoads s) < maxConcurrent then
        (if hd (loadingQueue s) = [] \<or> hd (loadingQueue s) \<in> set (activeLoads s)
         then processQueue_loop maxConcurrent iv (s\<lparr>loadingQueue := tl (loadingQueue s)\<rparr>)
         else s\<lparr>loadingQueue := tl (loadingQueue s),
                activeLoads := set_add (hd (loadingQueue s)) (activeLoads s),
                awaiting := awaiting s @ [(iv, hd (loadingQueue s))],
                fetched := fetched s @ [hd (loadingQueue s)]\<rparr>)
      else if activeLoads s = [] \<and> loadingQueue s = [] then s\<lparr>isLoading := False\<rparr>
      else s)"
  by pat_completeness auto
termination
  by (relation "measure (\<lambda>(maxConcurrent, iv, s). length (loadingQueue s))") auto

declare processQueue_loop.simps [simp del]

text \<open>A call of \<open>processQueue\<close>: a new invocation enters the loop.\<close>

definition processQueue :: "nat \<Rightarrow> preloader \<Rightarrow> preloader" where
  "processQueue maxConcurrent s =
     processQueue_loop maxConcurrent (next_invocation s)
       (s\<lparr>next_invocation := Suc (next_invocation s)\<rparr>)"

text \<open>
  The image awaited by invocation \<open>iv\<close> settles (\<open>onload\<close> or \<open>onerror\<close>): the status is
  recorded, the promise resolves, the \<open>finally\<close> block takes the key out of the active
  set and the invocation goes round its loop again.
\<close>

definition image_settles :: "nat \<Rightarrow> nat \<Rightarrow> bool \<Rightarrow> preloader \<Rightarrow> preloader" where
  "image_settles maxConcurrent iv success s =
     (case map_of (awaiting s) iv of
        None \<Rightarrow> s
      | Some k \<Rightarrow>
          processQueue_loop maxConcurrent iv
            (s\<lparr>preloadedImages :=
                 AList.update k \<lparr>src = k, loaded = success, load_error = \<not> success\<rparr>
                   (preloadedImages s),
               activeLoads := set_delete k (activeLoads s),
               awaiting := AList.delete iv (awaiting s)\<rparr>))"

text \<open>The updater of \<open>startPreloading\<close>: an entry for each new key not yet in the map.\<close>

definition init_entry ::
  "string \<Rightarrow> (string \<times> PreloadedImage) list \<Rightarrow> (string \<times> PreloadedImage) list" where
  "init_entry k updated =
     (if map_of updated k = None
      then AList.update k \<lparr>src = k, loaded = False, load_error = False\<rparr> updated
      else updated)"

definition startPreloading :: "nat \<Rightarrow> string list \<Rightarrow> preloader \<Rightarrow> preloader" where
  "startPreloading maxConcurrent srcs s =
     (let newSrcs = filter (\<lambda>k. map_of (rendered s) k = None) srcs
      in if newSrcs = [] then s
         else processQueue maxConcurrent
                (s\<lparr>isLoading := True,
                   loadingQueue := loadingQueue s @ newSrcs,
                   preloadedImages := fold init_entry newSrcs (preloadedImages s)\<rparr>))"

text \<open>
  The events of the page: a call of \<open>startPreloading\<close>, the settlement of the image an
  invocation awaits, and a render of the component (after which the closures read the
  current map).
\<close>

datatype preload_event = Schedule "string list" | ImageSettles nat bool | Render

fun preload_step :: "nat \<Rightarrow> preload_event \<Rightarrow> preloader \<Rightarrow> preloader" where
  "preload_step maxConcurrent (Schedule srcs) s = startPreloading maxConcurrent srcs s"
| "preload_step maxConcurrent (ImageSettles iv success) s =
     image_settles maxConcurrent iv success s"
| "preload_step maxConcurrent Render s = s\<lparr>rendered := preloadedImages s\<rparr>"

definition preload_run :: "nat \<Rightarrow> preload_event list \<Rightarrow> preloader \<Rightarrow> preloader" where
  "preload_run maxConcurrent evs s = fold (preload_step maxConcurrent) evs s"

text \<open>The keys invocation \<open>iv\<close> has made active and not yet taken out again.\<close>

definition active_of :: "nat \<Rightarrow> preloader \<Rightarrow> string list" where
  "active_of iv s = map snd (filter (\<lambda>e. fst e = iv) (awaiting s))"

text \<open>How often the load of a key was begun.\<close>

definition fetch_count :: "string \<Rightarrow> preloader \<Rightarrow> nat" where
  "fetch_count k s = count_list (fetched s) k"

section \<open>Derived notions and sample inputs\<close>

subsection \<open>Request client\<close>

text \<open>An attempt that fails in a way the \<open>catch\<close> clause lets the loop retry.\<close>

definition retryable ::
  "ApiClientConfig \<Rightarrow> ('a response \<Rightarrow> thrown + 'a response) list \<Rightarrow> 'a net \<Rightarrow> RequestConfig
     \<Rightarrow> bool" where
  "retryable client ris n cfg =
     (case attempt_once client ris n cfg of
        Inl t \<Rightarrow> \<not> no_retry (as_Error t)
      | Inr v \<Rightarrow> False)"

text \<open>
  The trace of a loop that fails and backs off at the attempts \<open>n, \<dots>, m - 1\<close> and stops
  after attempt \<open>m\<close>.
\<close>

definition backoff_trace :: "string \<Rightarrow> RequestConfig \<Rightarrow> int \<Rightarrow> nat \<Rightarrow> nat \<Rightarrow> event list" where
  "backoff_trace url cfg rd n m =
     concat (map (\<lambda>a. [Fetch a url cfg, Sleep (rd * 2 ^ a)]) [n..<m]) @ [Fetch m url cfg]"

definition local_client :: ApiClientConfig where
  "local_client = default_config ''http://localhost:8000''"

text \<open>A 404 with the structured body the backend sends, and one with a body that is no JSON.\<close>

definition not_found_response :: "unit response" where
  "not_found_response =
     \<lparr>status = 404, statusText = ''Not Found'', contentType = Some ''application/json'',
      payload = Parsed (Some ''Person not found'') ()\<rparr>"

definition not_found_plain :: "unit response" where
  "not_found_plain =
     \<lparr>status = 404, statusText = ''Not Found'', contentType = Some ''text/html'',
      payload = Unparseable ''Unexpected token <''\<rparr>"

text \<open>
  Two 503 responses: one whose detail relays an upstream failure in words that contain
  \<open>Client error\<close>, one with a plain detail.
\<close>

definition relayed_response :: "unit response" where
  "relayed_response =
     \<lparr>status = 503, statusText = ''Service Unavailable'',
      contentType = Some ''application/json'',
      payload = Parsed (Some ''Client error 404 Not Found for url http://storage/p1.jpg'') ()\<rparr>"

definition busy_response :: "unit response" where
  "busy_response =
     \<lparr>status = 503, statusText = ''Service Unavailable'',
      contentType = Some ''application/json'',
      payload = Parsed (Some ''Service Unavailable'') ()\<rparr>"

text \<open>A network that answers 503 once and then never again.\<close>

definition busy_then_silent :: "nat \<Rightarrow> unit net" where
  "busy_then_silent a = (if a = 0 then Responds 5 busy_response else Hangs)"

definition impatient_config :: RequestConfig where
  "impatient_config = get_config\<lparr>timeout := Some 50, retries := Some 5\<rparr>"

subsection \<open>Cache store\<close>

text \<open>The options \<open>{ttl: 100}\<close>.\<close>

definition hundred_ms :: CacheOptions where
  "hundred_ms = no_options\<lparr>ttl_opt := Some 100\<rparr>"

text \<open>
  A burst of 101 writes to the memory backend under the keys \<open>0\<close> to \<open>100\<close>, all within
  the millisecond 1000 of the clock.
\<close>

definition burst_keys :: "string list" where
  "burst_keys = map string_of_nat [0..<101]"

definition burst :: "int CacheService" where
  "burst = fold (\<lambda>k. cache_set 1000 1000 True k 0 no_options) burst_keys new_CacheService"

text \<open>
  The value 7 is written under \<open>a\<close> at time 0 with the default time-to-live of five
  minutes; one millisecond later a hundred other keys are written.
\<close>

definition crowded :: "int CacheService" where
  "crowded = fold (\<lambda>k. cache_set 1 1 True k 0 no_options) (map string_of_nat [0..<100])
               (cache_set 0 0 True ''a'' 7 no_options new_CacheService)"

subsection \<open>Fetch hooks\<close>

text \<open>
  The state a settlement writes: \<open>fetchData_settle\<close> does not read the state it
  replaces.
\<close>

definition settled :: "thrown + 'a \<Rightarrow> 'a UseApiState" where
  "settled outcome = fetchData_settle outcome initial_api_state"

text \<open>
  Fetch 0 (A) is started, then fetch 1 (B); B settles with \<open>B\<close>, then A with \<open>A\<close>.
\<close>

definition b_then_a :: "string api_event list" where
  "b_then_a = [Start 0, Start 1, Settle 1 (Inr ''B''), Settle 0 (Inr ''A'')]"

text \<open>Items with an \<open>id\<close> and a name; \<open>fst\<close> reads the \<open>id\<close>.\<close>

type_synonym item = "nat \<times> string"

definition paginated_mount :: "item paginated_hook" where
  "paginated_mount = \<lparr>pstate = initial_paginated, fetches = []\<rparr>"

definition first_page :: "item page_response" where
  "first_page = \<lparr>page_data = [(1, ''ann''), (2, ''bob'')], page_total = 3, has_next = True\<rparr>"

definition second_page :: "item page_response" where
  "second_page = \<lparr>page_data = [(2, ''bob''), (3, ''cy'')], page_total = 3, has_next = False\<rparr>"

text \<open>The hook once the first page has arrived.\<close>

definition first_page_loaded :: "item paginated_hook" where
  "first_page_loaded =
     page_run fst [CallLoadPage 1 False, SettleFetch 0 (Inr first_page)] paginated_mount"

subsection \<open>Bounded preloader\<close>

text \<open>
  What the observer's bookkeeping must satisfy for the refs to mean what they say: the
  active set is the keys awaited, in order; no invocation and no key is awaited twice;
  every invocation awaited has a number already given out.
\<close>

definition preload_inv :: "preloader \<Rightarrow> bool" where
  "preload_inv s =
     (activeLoads s = map snd (awaiting s) \<and> distinct (map fst (awaiting s))
      \<and> distinct (map snd (awaiting s))
      \<and> list_all (\<lambda>e. fst e < next_invocation s) (awaiting s))"

text \<open>The hook is given a list that names one image twice.\<close>

definition twice_a :: "preload_event list" where
  "twice_a = [Schedule [''a.jpg'', ''a.jpg''], ImageSettles 0 True]"

text \<open>
  The same with the render and the repeated call of \<open>startPreloading\<close> by the effect
  that follow the first call.
\<close>

definition twice_a_rendered :: "preload_event list" where
  "twice_a_rendered =
     [Schedule [''a.jpg'', ''a.jpg''], Render, Schedule [''a.jpg'', ''a.jpg''],
      ImageSettles 0 True]"

text \<open>
  Two calls of one \<open>startPreloading\<close> closure with the same two keys and no render
  between, then the first load settles.
\<close>

definition two_calls :: "preload_event list" where
  "two_calls =
     [Schedule [''a.jpg'', ''b.jpg''], Schedule [''a.jpg'', ''b.jpg''], ImageSettles 0 True]"

section \<open>Properties of the request client\<close>

lemmas client_eval =
  requestWithRetry_def default_config_def retry_loop.simps attempt_once_def
  requestWithTimeout_def effective_timeout_def effective_retries_def
  effective_retryDelay_def get_config_def empty_config_def final_config_def ok_def errorData_detail_def detail_or_def as_Error_def no_retry_def
  new_Error_def attempts_def apply_request_interceptors_def local_client_def
  string_of_nat.simps digit_char_def abort_error_def

lemma str_includes_iff_sublist: "str_includes s sub \<longleftrightarrow> sublist sub s"
  by (induction s) (auto simp: sublist_Cons_right)

subsection \<open>The four ways round the loop\<close>

lemma retry_loop_exit:
  "\<not> int n \<le> rs \<Longrightarrow>
   retry_loop client ris handler url cfg rs rd le n =
     (Inl (case le of None \<Rightarrow> RaisedUndefined | Some e \<Rightarrow> Raised e), [])"
  by (subst retry_loop.simps) simp

lemma retry_loop_return:
  "int n \<le> rs \<Longrightarrow> attempt_once client ris (handler n) cfg = Inr v \<Longrightarrow>
   retry_loop client ris handler url cfg rs rd le n = (Inr v, [Fetch n url cfg])"
  by (subst retry_loop.simps) simp

lemma retry_loop_raise:
  "int n \<le> rs \<Longrightarrow> attempt_once client ris (handler n) cfg = Inl t \<Longrightarrow>
   no_retry (as_Error t) \<or> int n = rs \<Longrightarrow>
   retry_loop client ris handler url cfg rs rd le n =
     (Inl (Raised (as_Error t)), [Fetch n url cfg])"
  by (subst retry_loop.simps) (auto simp: Let_def)

lemma retry_loop_again:
  "int n < rs \<Longrightarrow> attempt_once client ris (handler n) cfg = Inl t \<Longrightarrow>
   \<not> no_retry (as_Error t) \<Longrightarrow>
   retry_loop client ris handler url cfg rs rd le n =
     (fst (retry_loop client ris handler url cfg rs rd (Some (as_Error t)) (Suc n)),
      Fetch n url cfg # Sleep (rd * 2 ^ n) #
        snd (retry_loop client ris handler url cfg rs rd (Some (as_Error t)) (Suc n)))"
  by (subst retry_loop.simps) (auto simp: Let_def split: prod.splits)

lemma retry_loop_cases:
  obtains
    (exit) "\<not> int n \<le> rs"
  | (return) v where "int n \<le> rs" "attempt_once client ris (handler n) cfg = Inr v"
  | (raise) t where "int n \<le> rs" "attempt_once client ris (handler n) cfg = Inl t"
      "no_retry (as_Error t) \<or> int n = rs"
  | (again) t where "int n < rs" "attempt_once client ris (handler n) cfg = Inl t"
      "\<not> no_retry (as_Error t)"
  by (cases "attempt_once client ris (handler n) cfg") force+

subsection \<open>Timeouts\<close>

lemma timeout_attempt_once:
  "timer_fires_first (effective_timeout client cfg) n \<Longrightarrow>
   attempt_once client ris n cfg = Inl (ErrorObj abort_error)"
  by (simp add: attempt_once_def requestWithTimeout_def)

lemma no_retry_abort_error: "no_retry abort_error"
  by (simp add: no_retry_def abort_error_def)

lemma as_Error_ErrorObj: "as_Error (ErrorObj e) = e"
  by (simp add: as_Error_def)

text \<open>Every attempt in the trace carries its index, the one URL and the one configuration.\<close>

lemma retry_loop_fetch_index:
  "Fetch a u c \<in> set (snd (retry_loop client ris handler url cfg rs rd le n))
   \<Longrightarrow> n \<le> a \<and> u = url \<and> c = cfg"
proof (induction client ris handler url cfg rs rd le n rule: retry_loop.induct)
  case (1 client ris handler url cfg rs rd le n)
  show ?case
  proof (cases rule: retry_loop_cases [where n=n and rs=rs and client=client and ris=ris
                                        and handler=handler and cfg=cfg])
    case exit
    with "1.prems" show ?thesis by (simp add: retry_loop_exit)
  next
    case (return v)
    with "1.prems" show ?thesis by (simp add: retry_loop_return)
  next
    case (raise t)
    with "1.prems" show ?thesis by (simp add: retry_loop_raise)
  next
    case (again t)
    let ?rest = "retry_loop client ris handler url cfg rs rd (Some (as_Error t)) (Suc n)"
    from "1.prems" have "a = n \<and> u = url \<and> c = cfg \<or> Fetch a u c \<in> set (snd ?rest)"
      by (auto simp: retry_loop_again [where handler=handler and n=n, OF again])
    then show ?thesis
    proof
      assume "a = n \<and> u = url \<and> c = cfg"
      then show ?thesis by simp
    next
      assume mem: "Fetch a u c \<in> set (snd ?rest)"
      from again have "int n \<le> rs" "int n \<noteq> rs" by auto
      from "1.IH" [OF this(1) again(2) refl again(3) this(2) mem]
      show ?thesis by simp
    qed
  qed
qed

lemma retry_loop_timeout:
  "Fetch a u c \<in> set (snd (retry_loop client ris handler url cfg rs rd le n))
   \<Longrightarrow> timer_fires_first (effective_timeout client cfg) (handler a)
   \<Longrightarrow> fst (retry_loop client ris handler url cfg rs rd le n) = Inl (Raised abort_error)
     \<and> last (snd (retry_loop client ris handler url cfg rs rd le n)) = Fetch a url cfg
     \<and> attempts (snd (retry_loop client ris handler url cfg rs rd le n)) = Suc a - n"
proof (induction client ris handler url cfg rs rd le n rule: retry_loop.induct)
  case (1 client ris handler url cfg rs rd le n)
  note timeout = timeout_attempt_once [OF "1.prems"(2), of ris]
  show ?case
  proof (cases rule: retry_loop_cases [where n=n and rs=rs and client=client and ris=ris
                                        and handler=handler and cfg=cfg])
    case exit
    with "1.prems" show ?thesis by (simp add: retry_loop_exit)
  next
    case (return v)
    with "1.prems"(1) have "a = n" by (simp add: retry_loop_return)
    with timeout return show ?thesis by simp
  next
    case (raise t)
    with "1.prems"(1) have "a = n" by (simp add: retry_loop_raise)
    with timeout raise show ?thesis
      by (simp add: retry_loop_raise as_Error_ErrorObj attempts_def)
  next
    case (again t)
    let ?rest = "retry_loop client ris handler url cfg rs rd (Some (as_Error t)) (Suc n)"
    have "a \<noteq> n"
    proof
      assume "a = n"
      with timeout again show False by (simp add: as_Error_ErrorObj no_retry_abort_error)
    qed
    with "1.prems"(1) have mem: "Fetch a u c \<in> set (snd ?rest)"
      by (auto simp: retry_loop_again [where handler=handler and n=n, OF again])
    from retry_loop_fetch_index [OF mem] have le: "Suc n \<le> a" by simp
    from again have "int n \<le> rs" "int n \<noteq> rs" by auto
    from "1.IH" [OF this(1) again(2) refl again(3) this(2) mem "1.prems"(2)]
    have "fst ?rest = Inl (Raised abort_error)" "last (snd ?rest) = Fetch a url cfg"
         "attempts (snd ?rest) = Suc a - Suc n" by auto
    with le mem show ?thesis
      by (auto simp: retry_loop_again [where handler=handler and n=n, OF again] attempts_def)
  qed
qed

text \<open>
  Claim C4. Whenever the abort timer of an attempt fires before the network call of that
  attempt settles, the call raises the timeout failure (the \<open>AbortError\<close>) at once: the
  timed-out attempt is the last event of the trace, no sleep and no further attempt
  follows it, and this holds for every retry count, every retry delay and whatever the
  earlier attempts did.
\<close>

theorem timeout_is_terminal:
  assumes "Fetch a u c \<in> set (snd (requestWithRetry client qis ris handler endpoint config))"
    and "timer_fires_first (effective_timeout client (final_config qis config)) (handler a)"
  shows "fst (requestWithRetry client qis ris handler endpoint config) = Inl (Raised abort_error)
       \<and> last (snd (requestWithRetry client qis ris handler endpoint config))
           = Fetch a (baseUrl client @ endpoint) (final_config qis config)
       \<and> attempts (snd (requestWithRetry client qis ris handler endpoint config)) = Suc a"
  using assms retry_loop_timeout [where n = 0 and a = a and handler = handler]
  unfolding requestWithRetry_def by fastforce

theorem timeout_is_terminal_witness:
  "Fetch 1 ''http://localhost:8000/api/persons'' (final_config [] impatient_config)
     \<in> set (snd (requestWithRetry local_client [] [] busy_then_silent ''/api/persons''
                   impatient_config))
   \<and> timer_fires_first (effective_timeout local_client (final_config [] impatient_config))
       (busy_then_silent 1)
   \<and> fst (requestWithRetry local_client [] [] busy_then_silent ''/api/persons''
           impatient_config) = Inl (Raised abort_error)
   \<and> attempts (snd (requestWithRetry local_client [] [] busy_then_silent ''/api/persons''
                     impatient_config)) = 2"
proof -
  have run: "snd (requestWithRetry local_client [] [] busy_then_silent ''/api/persons''
                   impatient_config)
      = [Fetch 0 ''http://localhost:8000/api/persons'' (final_config [] impatient_config),
         Sleep 1000,
         Fetch 1 ''http://localhost:8000/api/persons'' (final_config [] impatient_config)]"
    by (simp add: client_eval busy_then_silent_def impatient_config_def busy_response_def)
  have made: "Fetch 1 ''http://localhost:8000/api/persons'' (final_config [] impatient_config)
     \<in> set (snd (requestWithRetry local_client [] [] busy_then_silent ''/api/persons''
                   impatient_config))"
    by (simp add: run)
  have fires: "timer_fires_first
       (effective_timeout local_client (final_config [] impatient_config)) (busy_then_silent 1)"
    by (simp add: busy_then_silent_def)
  from timeout_is_terminal [OF made fires] made fires show ?thesis by simp
qed

subsection \<open>Client failures\<close>

text \<open>
  What an attempt raises for a 4xx response that arrives in time (no response
  interceptor registered), and when the \<open>catch\<close> clause takes it for a client failure.
\<close>

lemma client_error_attempt:
  assumes "\<not> timer_fires_first (effective_timeout client cfg) (Responds d r)"
    and "400 \<le> status r" and "status r < 500"
  shows "attempt_once client [] (Responds d r) cfg =
           Inl (ErrorObj (new_Error (detail_or (errorData_detail r) ''Client error occurred'')))"
  using assms by (simp add: attempt_once_def requestWithTimeout_def ok_def)

lemma client_error_no_retry_iff:
  "no_retry (as_Error (ErrorObj (new_Error (detail_or (errorData_detail r) ''Client error occurred''))))
     \<longleftrightarrow> str_includes (detail_or (errorData_detail r) ''Client error occurred'') ''Client error''"
  by (simp add: no_retry_def as_Error_def new_Error_def)

text \<open>A 4xx response whose parsed body has no detail, or an empty one, ends the call.\<close>

lemma client_error_without_detail:
  assumes "\<not> timer_fires_first (effective_timeout client cfg) (handler n)"
    and "handler n = Responds d r" and "400 \<le> status r" and "status r < 500"
    and "payload r = Parsed None v \<or> payload r = Parsed (Some []) v" and "int n \<le> rs"
  shows "retry_loop client [] handler url cfg rs rd le n =
           (Inl (Raised (new_Error ''Client error occurred'')), [Fetch n url cfg])"
proof -
  from assms(5) have d: "detail_or (errorData_detail r) ''Client error occurred''
                          = ''Client error occurred''"
    by (auto simp: detail_or_def errorData_detail_def)
  from assms(1,2) have "\<not> timer_fires_first (effective_timeout client cfg) (Responds d r)"
    by simp
  from client_error_attempt [OF this assms(3,4)] assms(2) d
  have a: "attempt_once client [] (handler n) cfg
            = Inl (ErrorObj (new_Error ''Client error occurred''))"
    by simp
  have "no_retry (as_Error (ErrorObj (new_Error ''Client error occurred'')))"
    by (simp add: no_retry_def as_Error_def new_Error_def)
  with retry_loop_raise [where handler = handler and n = n, OF assms(6) a]
  show ?thesis by (simp add: as_Error_def)
qed

text \<open>
  Claim C1. The claim says that a 4xx response is never retried, whatever the retry
  count and whether or not the response has a parseable structured body. The loop tells
  a client failure from the text of the error message, and the message of a 4xx failure
  is the detail of the response whenever there is one. So a 404 with the detail
  \<open>Person not found\<close>, under the client's defaults, is attempted four times with three
  backoff sleeps between, and so is a 404 whose body is no JSON (its message is the
  synthesized \<open>HTTP 404: Not Found\<close>).
\<close>

theorem client_error_is_retried:
  "requestWithRetry local_client [] [] (\<lambda>a. Responds 5 not_found_response)
       ''/api/persons/p1'' get_config
     = (Inl (Raised (new_Error ''Person not found'')),
        [Fetch 0 ''http://localhost:8000/api/persons/p1'' (final_config [] get_config),
         Sleep 1000,
         Fetch 1 ''http://localhost:8000/api/persons/p1'' (final_config [] get_config),
         Sleep 2000,
         Fetch 2 ''http://localhost:8000/api/persons/p1'' (final_config [] get_config),
         Sleep 4000,
         Fetch 3 ''http://localhost:8000/api/persons/p1'' (final_config [] get_config)])
   \<and> fst (requestWithRetry local_client [] [] (\<lambda>a. Responds 5 not_found_plain)
            ''/api/persons/p1'' get_config)
       = Inl (Raised (new_Error ''HTTP 404: Not Found''))
   \<and> attempts (snd (requestWithRetry local_client [] [] (\<lambda>a. Responds 5 not_found_plain)
                      ''/api/persons/p1'' get_config)) = 4"
  by (simp add: client_eval not_found_response_def not_found_plain_def)

subsection \<open>Server failures\<close>

text \<open>
  A loop whose attempts \<open>n, \<dots>, m\<close> all fail in a retryable way, with retry count \<open>m\<close>:
  it makes each of them, sleeps \<open>retryDelay * 2 ^ a\<close> after attempt \<open>a < m\<close>, sends the
  same URL and configuration each time and raises the failure of attempt \<open>m\<close>.
\<close>

lemma retry_loop_all_retryable:
  assumes "\<And>a. n \<le> a \<Longrightarrow> a \<le> m \<Longrightarrow> retryable client ris (handler a) cfg"
    and "n \<le> m"
  shows "retry_loop client ris handler url cfg (int m) rd le n =
           (case attempt_once client ris (handler m) cfg of
              Inl t \<Rightarrow> Inl (Raised (as_Error t)) | Inr v \<Rightarrow> Inr v,
            backoff_trace url cfg rd n m)"
  using assms
proof (induction "m - n" arbitrary: n le)
  case 0
  then have [simp]: "n = m" by simp
  from "0.prems"(1) [of m] obtain t where
    t: "attempt_once client ris (handler m) cfg = Inl t"
    by (auto simp: retryable_def split: sum.splits)
  show ?case
    by (simp add: retry_loop_raise [where handler = handler and n = m, OF _ t] t
                  backoff_trace_def)
next
  case (Suc k)
  then have lt: "n < m" by simp
  from Suc.prems(1) [of n] lt obtain t where
    t: "attempt_once client ris (handler n) cfg = Inl t" "\<not> no_retry (as_Error t)"
    by (auto simp: retryable_def split: sum.splits)
  have rest: "retry_loop client ris handler url cfg (int m) rd (Some (as_Error t)) (Suc n) =
           (case attempt_once client ris (handler m) cfg of
              Inl t \<Rightarrow> Inl (Raised (as_Error t)) | Inr v \<Rightarrow> Inr v,
            backoff_trace url cfg rd (Suc n) m)"
    using Suc.hyps(2) lt Suc.prems(1) by (intro Suc.hyps(1)) auto
  from lt have "int n < int m" by simp
  from retry_loop_again [where handler = handler and n = n, OF this t]
  show ?case
    using lt by (simp add: rest backoff_trace_def upt_conv_Cons)
qed

lemma attempts_backoff_trace:
  "n \<le> m \<Longrightarrow> attempts (backoff_trace url cfg rd n m) = Suc m - n"
  by (induction "m - n" arbitrary: n)
     (auto simp: backoff_trace_def attempts_def upt_conv_Cons)

lemma sleeps_backoff_trace:
  "n \<le> m \<Longrightarrow> sleeps (backoff_trace url cfg rd n m) = map (\<lambda>a. rd * 2 ^ a) [n..<m]"
  by (induction "m - n" arbitrary: n)
     (auto simp: backoff_trace_def upt_conv_Cons)

text \<open>
  The retry bound where the \<open>catch\<close> clause takes every failure for a retryable one: with
  retry count \<open>m\<close> the call makes \<open>m + 1\<close> attempts, sleeps \<open>retryDelay * 2 ^ a\<close> after
  attempt \<open>a\<close>, runs the request interceptors once and raises the last failure.
\<close>

lemma retry_bound:
  assumes "\<And>a. a \<le> m \<Longrightarrow> retryable client ris (handler a) (final_config qis config)"
    and "effective_retries client config = int m"
  shows "snd (requestWithRetry client qis ris handler endpoint config)
           = backoff_trace (baseUrl client @ endpoint) (final_config qis config)
               (effective_retryDelay client config) 0 m"
    and "attempts (snd (requestWithRetry client qis ris handler endpoint config)) = m + 1"
    and "sleeps (snd (requestWithRetry client qis ris handler endpoint config))
           = map (\<lambda>a. effective_retryDelay client config * 2 ^ a) [0..<m]"
    and "\<exists>t. attempt_once client ris (handler m) (final_config qis config) = Inl t
           \<and> fst (requestWithRetry client qis ris handler endpoint config)
               = Inl (Raised (as_Error t))"
proof -
  have run: "requestWithRetry client qis ris handler endpoint config =
      (case attempt_once client ris (handler m) (final_config qis config) of
         Inl t \<Rightarrow> Inl (Raised (as_Error t)) | Inr v \<Rightarrow> Inr v,
       backoff_trace (baseUrl client @ endpoint) (final_config qis config)
         (effective_retryDelay client config) 0 m)"
    unfolding requestWithRetry_def assms(2)
    by (rule retry_loop_all_retryable) (simp_all add: assms(1))
  show "snd (requestWithRetry client qis ris handler endpoint config)
           = backoff_trace (baseUrl client @ endpoint) (final_config qis config)
               (effective_retryDelay client config) 0 m"
    by (simp add: run)
  show "attempts (snd (requestWithRetry client qis ris handler endpoint config)) = m + 1"
    by (simp add: run attempts_backoff_trace)
  show "sleeps (snd (requestWithRetry client qis ris handler endpoint config))
           = map (\<lambda>a. effective_retryDelay client config * 2 ^ a) [0..<m]"
    by (simp add: run sleeps_backoff_trace)
  from assms(1) [of m] obtain t where
    "attempt_once client ris (handler m) (final_config qis config) = Inl t"
    by (auto simp: retryable_def split: sum.splits)
  then show "\<exists>t. attempt_once client ris (handler m) (final_config qis config) = Inl t
           \<and> fst (requestWithRetry client qis ris handler endpoint config)
               = Inl (Raised (as_Error t))"
    by (simp add: run)
qed

text \<open>
  A 5xx response that arrives in time is retryable exactly when its message does not
  contain \<open>Client error\<close>.
\<close>

lemma server_error_retryable_iff:
  assumes "\<not> timer_fires_first (effective_timeout client cfg) (Responds d r)"
    and "500 \<le> status r"
  shows "retryable client [] (Responds d r) cfg
     \<longleftrightarrow> \<not> str_includes (detail_or (errorData_detail r) ''Server error occurred'')
              ''Client error''"
  using assms
  by (simp add: retryable_def attempt_once_def requestWithTimeout_def ok_def no_retry_def
                as_Error_def new_Error_def)

text \<open>
  Claim C3. The claim says that a handler that always produces a server failure is
  attempted \<open>retries + 1\<close> times. The loop takes a failure for a client failure when its
  message contains \<open>Client error\<close>, whatever the status: a 503 whose detail relays an
  upstream failure in such words is attempted once under \<open>retries = 2\<close>, with no sleep,
  while a 503 with a plain detail is attempted three times with the delays 1000 and 2000.
\<close>

theorem server_failure_not_retried:
  "requestWithRetry local_client [] [] (\<lambda>a. Responds 5 relayed_response)
       ''/api/photos'' (get_config\<lparr>retries := Some 2\<rparr>)
     = (Inl (Raised (new_Error ''Client error 404 Not Found for url http://storage/p1.jpg'')),
        [Fetch 0 ''http://localhost:8000/api/photos'' (final_config [] get_config)])
   \<and> attempts (snd (requestWithRetry local_client [] [] (\<lambda>a. Responds 5 busy_response)
                      ''/api/photos'' (get_config\<lparr>retries := Some 2\<rparr>))) = 3
   \<and> sleeps (snd (requestWithRetry local_client [] [] (\<lambda>a. Responds 5 busy_response)
                    ''/api/photos'' (get_config\<lparr>retries := Some 2\<rparr>))) = [1000, 2000]"
  by (simp add: client_eval relayed_response_def busy_response_def)

section \<open>Properties of the cache store\<close>

subsection \<open>The search for the oldest entry\<close>

lemma oldest_step_pair:
  "oldest_step e (k0, bound) =
     (if timestamp (snd e) < bound then (fst e, timestamp (snd e)) else (k0, bound))"
  by (simp add: oldest_step_def)

text \<open>
  The search ends on a timestamp no later than where it began and no later than any
  entry's; it ends on its starting pair, or on an entry strictly older than the start.
\<close>

lemma fold_oldest_step:
  "fold oldest_step m (k0, bound) = (d, t) \<Longrightarrow>
   t \<le> bound \<and> (\<forall>e \<in> set m. t \<le> timestamp (snd e)) \<and>
   ((d, t) = (k0, bound) \<or> (\<exists>item. (d, item) \<in> set m \<and> timestamp item = t \<and> t < bound))"
proof (induction m arbitrary: k0 bound)
  case Nil
  then show ?case by simp
next
  case (Cons e m)
  show ?case
  proof (cases "timestamp (snd e) < bound")
    case True
    with Cons.prems have "fold oldest_step m (fst e, timestamp (snd e)) = (d, t)"
      by (simp add: oldest_step_pair)
    from Cons.IH [OF this] True show ?thesis
      by (cases e) force
  next
    case False
    with Cons.prems have "fold oldest_step m (k0, bound) = (d, t)"
      by (simp add: oldest_step_pair)
    from Cons.IH [OF this] False show ?thesis by force
  qed
qed

lemma find_oldest_found:
  assumes "fst (find_oldest clock m) \<noteq> ''''"
  shows "\<exists>item. (fst (find_oldest clock m), item) \<in> set m \<and> timestamp item < clock
           \<and> (\<forall>e \<in> set m. timestamp item \<le> timestamp (snd e))"
proof -
  obtain d t where dt: "find_oldest clock m = (d, t)" by (cases "find_oldest clock m")
  from fold_oldest_step [OF dt [unfolded find_oldest_def]] assms dt
  show ?thesis by auto
qed

text \<open>
  When the eviction pass leaves an entry alone: the map is within its ceiling, or the
  pass reads the clock no later than the entry's timestamp, or some entry is older.
\<close>

lemma evictOldest_keeps:
  assumes "distinct (map fst m)" and "(k, item) \<in> set m"
    and "length m \<le> maxSize \<or> clock \<le> timestamp item
         \<or> (\<exists>e \<in> set m. timestamp (snd e) < timestamp item)"
  shows "map_of (evictOldest clock m) k = Some item"
proof -
  from assms(1,2) have here: "map_of m k = Some item" by simp
  show ?thesis
  proof (cases "length m \<le> maxSize \<or> fst (find_oldest clock m) = ''''")
    case True
    with here show ?thesis by (auto simp: evictOldest_def Let_def)
  next
    case False
    then have ne: "fst (find_oldest clock m) \<noteq> ''''" by simp
    from find_oldest_found [OF ne] obtain old where
      old: "(fst (find_oldest clock m), old) \<in> set m" "timestamp old < clock"
           "\<forall>e \<in> set m. timestamp old \<le> timestamp (snd e)" by blast
    have "fst (find_oldest clock m) \<noteq> k"
    proof
      assume "fst (find_oldest clock m) = k"
      with old(1) assms(1) here have same: "old = item" by simp
      from assms(3) False consider "clock \<le> timestamp item"
        | "\<exists>e \<in> set m. timestamp (snd e) < timestamp item" by auto
      then show False
      proof cases
        case 1
        with old(2) same show False by simp
      next
        case 2
        with old(3) same show False by fastforce
      qed
    qed
    with False here show ?thesis
      by (simp add: evictOldest_def Let_def delete_conv)
  qed
qed

subsection \<open>Keys stay distinct\<close>

lemma distinct_evictOldest:
  "distinct (map fst m) \<Longrightarrow> distinct (map fst (evictOldest clock m))"
  by (simp add: evictOldest_def Let_def distinct_delete)

lemma wf_cache_set: "wf_cache c \<Longrightarrow> wf_cache (cache_set now evict_now w k v options c)"
  by (auto simp: wf_cache_def cache_set_def Let_def distinct_update distinct_evictOldest
           split: option.splits storage.splits)

lemma wf_cache_delete: "wf_cache c \<Longrightarrow> wf_cache (cache_delete k s c)"
  by (auto simp: wf_cache_def cache_delete_def distinct_delete split: storage.splits)

lemma wf_cache_get: "wf_cache c \<Longrightarrow> wf_cache (snd (cache_get now k s c))"
  by (auto simp: cache_get_def wf_cache_delete split: option.splits)

lemma wf_new_CacheService: "wf_cache new_CacheService"
  by (simp add: wf_cache_def new_CacheService_def)

subsection \<open>What \<open>set\<close> leaves behind\<close>

lemma length_update_le: "length (AList.update k v m) \<le> Suc (length m)"
  by (induction m) auto

lemma update_keeps_others: "e \<in> set m \<Longrightarrow> fst e \<noteq> k \<Longrightarrow> e \<in> set (AList.update k v m)"
  by (induction m) auto

text \<open>
  The entry is in the backend where the write lands, unless the eviction pass of the
  same call takes it out again; the three conditions rule that out.
\<close>

lemma set_lands:
  assumes "wf_cache c"
    and "asks_memory options \<Longrightarrow>
           length (memoryCache c) < maxSize \<or> evict_now \<le> created
           \<or> (\<exists>e \<in> set (memoryCache c). fst e \<noteq> k \<and> timestamp (snd e) < created)"
  shows "lookup_item k (landed options w) (cache_set created evict_now w k v options c)
           = Some (new_item created k v options)"
proof -
  let ?item = "new_item created k v options"
  let ?m = "AList.update k ?item (memoryCache c)"
  have stamp: "timestamp ?item = created" by (simp add: new_item_def)
  from assms(1) have d: "distinct (map fst ?m)" by (simp add: wf_cache_def distinct_update)
  have "map_of ?m k = Some ?item" by (simp add: update_conv')
  then have here: "(k, ?item) \<in> set ?m" by (rule map_of_SomeD)
  have mem: "map_of (evictOldest evict_now ?m) k = Some ?item" if "asks_memory options"
  proof -
    from assms(2) [OF that] consider "length (memoryCache c) < maxSize"
      | "evict_now \<le> created"
      | "\<exists>e \<in> set (memoryCache c). fst e \<noteq> k \<and> timestamp (snd e) < created" by auto
    then have "length ?m \<le> maxSize \<or> evict_now \<le> timestamp ?item
                \<or> (\<exists>e \<in> set ?m. timestamp (snd e) < timestamp ?item)"
    proof cases
      case 1
      with length_update_le [of k ?item "memoryCache c"] show ?thesis by simp
    next
      case 2
      with stamp show ?thesis by simp
    next
      case 3
      then obtain e where "e \<in> set (memoryCache c)" "fst e \<noteq> k" "timestamp (snd e) < created"
        by auto
      with update_keeps_others [of e "memoryCache c" k ?item] stamp show ?thesis by auto
    qed
    from evictOldest_keeps [OF d here this] show ?thesis .
  qed
  show ?thesis
  proof (cases "asks_memory options")
    case True
    with mem show ?thesis
      by (auto simp: lookup_item_def landed_def cache_set_def Let_def asks_memory_def)
  next
    case False
    then show ?thesis
      by (auto simp: lookup_item_def landed_def cache_set_def Let_def asks_memory_def
                     update_conv'
               split: option.splits storage.splits)
  qed
qed

lemma getStorageKey_inject: "getStorageKey k = getStorageKey k' \<longleftrightarrow> k = k'"
  by (simp add: getStorageKey_def)

text \<open>A write to a web storage leaves the entries under other keys of that storage alone.\<close>

lemma set_keeps_other_keys:
  "k' \<noteq> k \<Longrightarrow> s \<noteq> Memory \<Longrightarrow>
   lookup_item k' s (cache_set now evict_now w k v options c) = lookup_item k' s c"
  by (cases s)
     (auto simp: lookup_item_def cache_set_def Let_def update_conv' getStorageKey_inject
           split: option.splits storage.splits)

subsection \<open>Expiry on read\<close>

lemma length_delete_distinct:
  "distinct (map fst m) \<Longrightarrow> map_of m k = Some v \<Longrightarrow> P k \<Longrightarrow>
   length (filter (\<lambda>e. P (fst e)) (AList.delete k m)) = length (filter (\<lambda>e. P (fst e)) m) - 1
     \<and> 0 < length (filter (\<lambda>e. P (fst e)) m)"
proof (induction m)
  case Nil
  then show ?case by simp
next
  case (Cons e m)
  show ?case
  proof (cases "fst e = k")
    case True
    with Cons.prems(1) have "k \<notin> fst ` set m" by auto
    then have "AList.delete k m = m" by (simp add: delete_id)
    with True Cons.prems(3) show ?thesis by (cases e) simp
  next
    case False
    with Cons.prems have "map_of m k = Some v" "distinct (map fst m)" by (cases e; auto)+
    from Cons.IH [OF this(2) this(1) Cons.prems(3)] False show ?thesis
      by (cases e) auto
  qed
qed

lemma expired_get:
  assumes "wf_cache c" and "lookup_item k s c = Some item"
  shows "\<not> holds_key k s (cache_delete k s c)
       \<and> cache_size s (cache_delete k s c) = cache_size s c - 1 \<and> 0 < cache_size s c"
proof (cases s)
  case Memory
  with assms have d: "distinct (map fst (memoryCache c))" "map_of (memoryCache c) k = Some item"
    by (simp_all add: wf_cache_def lookup_item_def)
  from length_delete_distinct [OF d, where P = "\<lambda>k. True"] Memory show ?thesis
    by (simp add: holds_key_def cache_delete_def cache_size_def delete_notin_dom)
next
  case LocalStorage
  with assms have d: "distinct (map fst (localStore c))"
       "map_of (localStore c) (getStorageKey k) = Some (Item item)"
    by (auto simp: wf_cache_def lookup_item_def split: option.splits stored.splits)
  have "prefix ''photo_gallery_cache_'' (getStorageKey k)" by (simp add: getStorageKey_def)
  from length_delete_distinct [OF d, where P = "prefix ''photo_gallery_cache_''", OF this]
    LocalStorage
  show ?thesis
    by (simp add: holds_key_def cache_delete_def cache_size_def delete_notin_dom)
next
  case SessionStorage
  with assms have d: "distinct (map fst (sessionStore c))"
       "map_of (sessionStore c) (getStorageKey k) = Some (Item item)"
    by (auto simp: wf_cache_def lookup_item_def split: option.splits stored.splits)
  have "prefix ''photo_gallery_cache_'' (getStorageKey k)" by (simp add: getStorageKey_def)
  from length_delete_distinct [OF d, where P = "prefix ''photo_gallery_cache_''", OF this]
    SessionStorage
  show ?thesis
    by (simp add: holds_key_def cache_delete_def cache_size_def delete_notin_dom)
qed

text \<open>Deleting the entry under one key leaves the entries under the other keys alone.\<close>

lemma delete_keeps_other_keys:
  "k' \<noteq> k \<Longrightarrow> lookup_item k' s (cache_delete k s c) = lookup_item k' s c"
  by (cases s) (simp_all add: lookup_item_def cache_delete_def getStorageKey_inject)

text \<open>
  Any entry a backend holds is served by its own timestamp and time-to-live, whatever
  happened since it was written.
\<close>

lemma cache_get_by_ttl:
  assumes "wf_cache c" and "lookup_item k s c = Some item"
  shows "now - timestamp item \<le> ttl item \<Longrightarrow> cache_get now k s c = (Some (data item), c)"
    and "ttl item < now - timestamp item \<Longrightarrow>
           cache_get now k s c = (None, cache_delete k s c)"
  using assms(2) by (simp_all add: cache_get_def isExpired_def)

text \<open>
  Claim C5, as stated: an entry written by \<open>set\<close> is returned by \<open>get\<close> whenever
  \<open>now - createdAt \<le> ttl\<close>. The value 7 is written under \<open>a\<close> at time 0 with a
  time-to-live of five minutes and is served at time 1. A hundred writes of other keys
  at time 1 take the memory backend over its ceiling, the eviction removes the oldest
  entry, which is \<open>a\<close>, and at time 2, well within the five minutes, \<open>get\<close> returns
  \<open>null\<close>.
\<close>

theorem evicted_within_ttl:
  "fst (cache_get 1 ''a'' Memory (cache_set 0 0 True ''a'' (7::int) no_options new_CacheService))
     = Some 7
   \<and> (2::int) - 0 \<le> effective_ttl no_options
   \<and> fst (cache_get 2 ''a'' Memory crowded) = None"
  by code_simp

text \<open>
  Claim C5, amended. An entry written by \<open>set\<close> at time \<open>created\<close> is left in the backend
  asked for, or in the memory backend when the write to a web storage failed; for a
  write to the memory backend this is so whenever the map was below its ceiling, or the
  eviction pass of the call reads the clock no later than \<open>created\<close>, or another key
  holds an older entry. As long as a backend holds the entry (it has not been
  overwritten, deleted or evicted), \<open>get\<close> on that backend returns the value whenever
  \<open>now - created \<le> ttl\<close> and leaves the service as it was; strictly after, \<open>get\<close> returns
  \<open>null\<close> and deletes the entry from that backend: the backend no longer holds the key,
  its \<open>size\<close> is one less, and the entries under other keys are as before.
\<close>

theorem cache_get_respects_ttl:
  assumes "wf_cache prior"
    and "asks_memory options \<Longrightarrow>
           length (memoryCache prior) < maxSize \<or> evict_now \<le> created
           \<or> (\<exists>e \<in> set (memoryCache prior). fst e \<noteq> k \<and> timestamp (snd e) < created)"
    and "wf_cache c"
    and "lookup_item k s c = Some (new_item created k v options)"
  shows "lookup_item k (landed options w) (cache_set created evict_now w k v options prior)
           = Some (new_item created k v options)
       \<and> (now - created \<le> effective_ttl options \<longrightarrow> cache_get now k s c = (Some v, c))
       \<and> (effective_ttl options < now - created \<longrightarrow>
            fst (cache_get now k s c) = None
          \<and> \<not> holds_key k s (snd (cache_get now k s c))
          \<and> cache_size s (snd (cache_get now k s c)) = cache_size s c - 1
          \<and> 0 < cache_size s c
          \<and> (k' \<noteq> k \<longrightarrow> lookup_item k' s (snd (cache_get now k s c)) = lookup_item k' s c))"
proof -
  let ?item = "new_item created k v options"
  have fields: "timestamp ?item = created" "ttl ?item = effective_ttl options" "data ?item = v"
    by (simp_all add: new_item_def)
  have lands: "lookup_item k (landed options w) (cache_set created evict_now w k v options prior)
                 = Some ?item"
    using assms(1,2) by (rule set_lands)
  have fresh: "now - created \<le> effective_ttl options \<Longrightarrow> cache_get now k s c = (Some v, c)"
    using cache_get_by_ttl(1) [OF assms(3,4), of now] fields by simp
  have stale: "effective_ttl options < now - created \<Longrightarrow>
                 cache_get now k s c = (None, cache_delete k s c)"
    using cache_get_by_ttl(2) [OF assms(3,4), of now] fields by simp
  from expired_get [OF assms(3,4)] delete_keeps_other_keys [of k' k s c] lands fresh stale
  show ?thesis by simp
qed

theorem cache_get_respects_ttl_witness:
  "wf_cache (new_CacheService :: int CacheService)
   \<and> length (memoryCache (new_CacheService :: int CacheService)) < maxSize
   \<and> lookup_item ''a'' Memory (cache_set 0 3 True ''a'' (1::int) hundred_ms new_CacheService)
       = Some (new_item 0 ''a'' 1 hundred_ms)
   \<and> fst (cache_get 50 ''a'' Memory (cache_set 0 3 True ''a'' (1::int) hundred_ms new_CacheService))
       = Some 1
   \<and> fst (cache_get 150 ''a'' Memory (cache_set 0 3 True ''a'' (1::int) hundred_ms new_CacheService))
       = None
   \<and> cache_size Memory
       (snd (cache_get 150 ''a'' Memory (cache_set 0 3 True ''a'' (1::int) hundred_ms new_CacheService)))
       = 0
   \<and> lookup_item ''b'' Memory
       (snd (cache_get 150 ''a'' Memory (cache_set 0 3 True ''a'' (1::int) hundred_ms new_CacheService)))
       = None"
proof -
  let ?c = "cache_set 0 3 True ''a'' (1::int) hundred_ms new_CacheService"
  have wf0: "wf_cache (new_CacheService :: int CacheService)"
    by (rule wf_new_CacheService)
  have room: "length (memoryCache (new_CacheService :: int CacheService)) < maxSize"
    by (simp add: new_CacheService_def maxSize_def)
  then have cond: "asks_memory hundred_ms \<Longrightarrow>
      length (memoryCache (new_CacheService :: int CacheService)) < maxSize \<or> (3::int) \<le> 0
      \<or> (\<exists>e \<in> set (memoryCache (new_CacheService :: int CacheService)).
             fst e \<noteq> ''a'' \<and> timestamp (snd e) < 0)"
    by simp
  have wf: "wf_cache ?c" by (rule wf_cache_set [OF wf0])
  have held: "lookup_item ''a'' Memory ?c = Some (new_item 0 ''a'' 1 hundred_ms)"
    by (simp add: lookup_item_def cache_set_def hundred_ms_def no_options_def
                  new_CacheService_def evictOldest_def maxSize_def)
  have opts: "effective_ttl hundred_ms = 100" "landed hundred_ms True = Memory"
    by (simp_all add: effective_ttl_def hundred_ms_def no_options_def landed_def)
  have one: "cache_size Memory ?c = 1" "lookup_item ''b'' Memory ?c = None"
    by (simp_all add: cache_size_def lookup_item_def cache_set_def hundred_ms_def
                      no_options_def new_CacheService_def evictOldest_def maxSize_def)
  from cache_get_respects_ttl [OF wf0 cond wf held, where now = 50 and w = True and k' = "''b''"]
       cache_get_respects_ttl [OF wf0 cond wf held, where now = 150 and w = True and k' = "''b''"]
       wf0 room opts one
  show ?thesis by simp
qed

subsection \<open>Eviction\<close>

lemma find_oldest_same_tick:
  assumes "\<forall>e \<in> set m. clock \<le> timestamp (snd e)"
  shows "find_oldest clock m = ('''', clock)"
proof -
  obtain d t where dt: "find_oldest clock m = (d, t)" by (cases "find_oldest clock m")
  from fold_oldest_step [OF dt [unfolded find_oldest_def]] assms dt
  show ?thesis by force
qed

lemma evictOldest_same_tick:
  "\<forall>e \<in> set m. clock \<le> timestamp (snd e) \<Longrightarrow> evictOldest clock m = m"
  by (simp add: evictOldest_def find_oldest_same_tick)

lemma evictOldest_removes_oldest:
  assumes "distinct (map fst m)" and "maxSize < length m"
    and "\<exists>e \<in> set m. timestamp (snd e) < clock" and "'''' \<notin> fst ` set m"
  shows "\<exists>d item. (d, item) \<in> set m \<and> (\<forall>e \<in> set m. timestamp item \<le> timestamp (snd e))
           \<and> evictOldest clock m = AList.delete d m
           \<and> length (evictOldest clock m) = length m - 1"
proof -
  obtain d t where dt: "find_oldest clock m = (d, t)" by (cases "find_oldest clock m")
  from fold_oldest_step [OF dt [unfolded find_oldest_def]]
  have low: "\<forall>e \<in> set m. t \<le> timestamp (snd e)"
    and alt: "(d, t) = ('''', clock)
              \<or> (\<exists>item. (d, item) \<in> set m \<and> timestamp item = t \<and> t < clock)"
    by auto
  from assms(3) low have "t < clock" by fastforce
  with alt obtain item where item: "(d, item) \<in> set m" "timestamp item = t" by auto
  with assms(4) have d: "d \<noteq> ''''" by force
  from item(1) assms(1) have here: "map_of m d = Some item" by simp
  from length_delete_distinct [OF assms(1) here, where P = "\<lambda>k. True"]
  have len: "length (AList.delete d m) = length m - 1" by simp
  from assms(2) d dt have ev: "evictOldest clock m = AList.delete d m"
    by (simp add: evictOldest_def)
  from item low ev len show ?thesis by auto
qed

text \<open>
  Over the ceiling, a tick of the clock between the two reads of one \<open>set\<close> can make the
  eviction pass take out the entry that very call wrote: after the burst, key \<open>0\<close> is
  first in the map, every entry carries the timestamp 1000, and a pass that reads 1001
  finds key \<open>0\<close> first.
\<close>

lemma set_can_evict_what_it_wrote:
  "fst (cache_get 1001 ''0'' Memory (cache_set 1000 1001 True ''0'' 7 no_options burst)) = None"
  by code_simp

text \<open>
  Claim C6. The claim says that the insert that takes the memory backend over its
  ceiling removes the entry with the smallest timestamp and leaves \<open>maxSize\<close> entries.
  \<open>evictOldest\<close> starts its search from the current time and looks for a strictly
  smaller timestamp, so entries written in the current millisecond are never found:
  after 101 writes within one millisecond the backend holds 101 entries, above the
  ceiling of 100, and the first of them is still there.
\<close>

theorem burst_exceeds_maxSize:
  "cache_size Memory burst = 101 \<and> maxSize = 100
   \<and> fst (cache_get 1000 ''0'' Memory burst) = Some 0"
  by code_simp

section \<open>Properties of the fetch hooks\<close>

subsection \<open>useApi\<close>

lemma api_run_append: "api_run (xs @ ys) h = api_run ys (api_run xs h)"
  by (simp add: api_run_def)

lemma fetchData_settle_settled: "fetchData_settle outcome prev = settled outcome"
  by (simp add: settled_def fetchData_settle_def split: sum.splits)

text \<open>
  Claim C2, as stated: fetch A is started, then fetch B; B settles, then A. The claim
  says the final state reflects B's result. The state holds A's.
\<close>

theorem stale_result_overwrites:
  "hook_state (api_run b_then_a api_mount)
     = \<lparr>api_data = Some ''A'', api_loading = False, api_error = None\<rparr>
   \<and> hook_state (api_run b_then_a api_mount) \<noteq> settled (Inr ''B'')"
  by (simp add: api_run_def b_then_a_def api_mount_def initial_api_state_def
                fetchData_start_def fetchData_settle_def settled_def)

text \<open>
  Claim C2, amended. The state of the hook after a fetch in flight settles is the result
  of that fetch, whatever was started or has settled before: the last settlement wins. In
  particular, when A is started before B and settles after B, the final state is A's
  result.
\<close>

theorem last_settlement_wins:
  assumes "i \<in> set (in_flight (api_run evs h))"
  shows "hook_state (api_run (evs @ [Settle i outcome]) h) = settled outcome"
  using assms by (simp add: api_run_append api_run_def fetchData_settle_settled)

theorem last_settlement_wins_witness:
  "0 \<in> set (in_flight (api_run [Start 0, Start 1, Settle 1 (Inr ''B'')] api_mount))
   \<and> hook_state (api_run ([Start 0, Start 1, Settle 1 (Inr ''B'')] @ [Settle 0 (Inr ''A'')])
                   api_mount)
       = \<lparr>api_data = Some ''A'', api_loading = False, api_error = None\<rparr>"
proof -
  have pending: "0 \<in> set (in_flight (api_run [Start 0, Start 1, Settle 1 (Inr ''B'')]
                                     (api_mount :: string api_hook)))"
    by (simp add: api_run_def api_mount_def)
  have "settled (Inr ''A'') = \<lparr>api_data = Some ''A'', api_loading = False, api_error = None\<rparr>"
    by (simp add: settled_def fetchData_settle_def)
  with last_settlement_wins [OF pending, of "Inr ''A''"] pending show ?thesis by simp
qed

subsection \<open>usePaginatedData\<close>

lemma append_new_eq:
  "append_new ident incoming prev
     = prev @ filter (\<lambda>item. ident item \<notin> ident ` set prev) incoming"
  by (simp add: append_new_def)

text \<open>A page without repeated ids keeps an accumulator without repeated ids so.\<close>

lemma append_new_distinct:
  assumes "distinct (map ident prev)" and "distinct (map ident incoming)"
  shows "distinct (map ident (append_new ident incoming prev))"
proof -
  let ?new = "filter (\<lambda>item. ident item \<notin> ident ` set prev) incoming"
  have apart: "set (map ident prev) \<inter> set (map ident ?new) = {}"
    by (auto simp: image_iff)
  from assms(2) have "distinct (map ident ?new)" by (rule distinct_map_filter)
  with apart assms(1) show ?thesis by (simp add: append_new_eq)
qed

text \<open>
  Claim C7. When the fetch of \<open>loadPage\<close> succeeds, \<open>append = false\<close> makes the fetched
  page the accumulated items, and \<open>append = true\<close> keeps the accumulated items in their
  order and puts after them, in the page's order, the items of the page whose \<open>id\<close> is
  not among the accumulated ones. Items 1 and 2 followed by the page of items 2 and 3
  give the items 1, 2, 3.
\<close>

theorem loadPage_replaces_or_appends:
  "allData (loadPage_settle ident page False (Inr response) s) = page_data response
   \<and> allData (loadPage_settle ident page True (Inr response) s)
       = allData s @ filter (\<lambda>item. ident item \<notin> ident ` set (allData s)) (page_data response)
   \<and> allData (pstate (page_run fst [CallLoadPage 2 True, SettleFetch 0 (Inr second_page)]
                        first_page_loaded))
       = [(1, ''ann''), (2, ''bob''), (3, ''cy'')]"
  by (simp add: loadPage_settle_def append_new_eq page_run_def first_page_loaded_def
                paginated_mount_def initial_paginated_def loadPage_start_def
                first_page_def second_page_def)

text \<open>\<open>loadMore\<close> asks for nothing when there is no next page or \<open>loading\<close> is set.\<close>

lemma loadMore_guard:
  "\<not> hasNextPage (pstate h) \<or> loading (pstate h) \<Longrightarrow> page_step ident CallLoadMore h = h"
  by (auto simp: loadMore_def)

text \<open>A call of \<open>loadMore\<close> leaves every state variable as it is, \<open>loading\<close> too.\<close>

lemma loadMore_writes_no_state: "pstate (page_step ident CallLoadMore h) = pstate h"
  by (simp add: loadMore_def)

text \<open>
  Claim C8. The claim says that a second \<open>loadMore\<close> made before the fetch of the first
  has settled is suppressed. \<open>loadMore\<close> tests \<open>loading\<close> but, unlike \<open>loadPage\<close>, does
  not set it: once the first page has arrived with a next page to come, two calls of
  \<open>loadMore\<close> in a row put two fetches of page 2 in flight.
\<close>

theorem second_loadMore_fetches_again:
  "fetches (page_run fst [CallLoadMore, CallLoadMore] first_page_loaded)
     = [(ByLoadMore, 2), (ByLoadMore, 2)]
   \<and> loadMore_in_flight (page_run fst [CallLoadMore, CallLoadMore] first_page_loaded) = 2"
  by (simp add: page_run_def first_page_loaded_def paginated_mount_def initial_paginated_def
                loadPage_start_def loadPage_settle_def loadMore_def first_page_def
                loadMore_in_flight_def)

section \<open>Properties of the bounded preloader\<close>

subsection \<open>One pass of the loop\<close>

lemma loop_end:
  "\<not> (loadingQueue s \<noteq> [] \<and> length (activeLoads s) < maxConcurrent) \<Longrightarrow>
   processQueue_loop maxConcurrent iv s =
     (if activeLoads s = [] \<and> loadingQueue s = [] then s\<lparr>isLoading := False\<rparr> else s)"
  by (subst processQueue_loop.simps) auto

lemma loop_skip:
  "loadingQueue s \<noteq> [] \<and> length (activeLoads s) < maxConcurrent \<Longrightarrow>
   hd (loadingQueue s) = [] \<or> hd (loadingQueue s) \<in> set (activeLoads s) \<Longrightarrow>
   processQueue_loop maxConcurrent iv s =
     processQueue_loop maxConcurrent iv (s\<lparr>loadingQueue := tl (loadingQueue s)\<rparr>)"
  by (subst processQueue_loop.simps) simp

lemma loop_begin:
  "loadingQueue s \<noteq> [] \<and> length (activeLoads s) < maxConcurrent \<Longrightarrow>
   \<not> (hd (loadingQueue s) = [] \<or> hd (loadingQueue s) \<in> set (activeLoads s)) \<Longrightarrow>
   processQueue_loop maxConcurrent iv s =
     s\<lparr>loadingQueue := tl (loadingQueue s),
       activeLoads := set_add (hd (loadingQueue s)) (activeLoads s),
       awaiting := awaiting s @ [(iv, hd (loadingQueue s))],
       fetched := fetched s @ [hd (loadingQueue s)]\<rparr>"
  by (subst processQueue_loop.simps) simp

text \<open>The loop of an invocation ends at the first load it begins.\<close>

lemma processQueue_loop_awaiting:
  "awaiting (processQueue_loop maxConcurrent iv s) = awaiting s
   \<or> (\<exists>k. awaiting (processQueue_loop maxConcurrent iv s) = awaiting s @ [(iv, k)])"
proof (induction maxConcurrent iv s rule: processQueue_loop.induct)
  case (1 maxConcurrent iv s)
  show ?case
  proof (cases "loadingQueue s \<noteq> [] \<and> length (activeLoads s) < maxConcurrent")
    case False
    then show ?thesis by (simp add: loop_end)
  next
    case True
    show ?thesis
    proof (cases "hd (loadingQueue s) = [] \<or> hd (loadingQueue s) \<in> set (activeLoads s)")
      case skip: True
      from "1.IH" [OF True skip] show ?thesis
        by (simp add: loop_skip [OF True skip])
    next
      case False
      then show ?thesis by (simp add: loop_begin [OF True False])
    qed
  qed
qed

lemma processQueue_loop_inv:
  assumes "preload_inv s" and "iv \<notin> fst ` set (awaiting s)" and "iv < next_invocation s"
  shows "preload_inv (processQueue_loop maxConcurrent iv s)"
  using assms
proof (induction maxConcurrent iv s rule: processQueue_loop.induct)
  case (1 maxConcurrent iv s)
  show ?case
  proof (cases "loadingQueue s \<noteq> [] \<and> length (activeLoads s) < maxConcurrent")
    case False
    with "1.prems"(1) show ?thesis
      by (auto simp: loop_end preload_inv_def)
  next
    case True
    show ?thesis
    proof (cases "hd (loadingQueue s) = [] \<or> hd (loadingQueue s) \<in> set (activeLoads s)")
      case skip: True
      have "preload_inv (processQueue_loop maxConcurrent iv (s\<lparr>loadingQueue := tl (loadingQueue s)\<rparr>))"
        using "1.prems" by (intro "1.IH" [OF True skip]) (simp_all add: preload_inv_def)
      then show ?thesis by (simp add: loop_skip [OF True skip])
    next
      case False
      with "1.prems" show ?thesis
        by (auto simp: loop_begin [OF True False] preload_inv_def set_add_def list_all_iff)
    qed
  qed
qed

subsection \<open>The events of the page\<close>

lemma removeAll_snd_delete:
  "distinct (map fst al) \<Longrightarrow> distinct (map snd al) \<Longrightarrow> map_of al iv = Some k \<Longrightarrow>
   removeAll k (map snd al) = map snd (AList.delete iv al)"
proof (induction al)
  case Nil
  then show ?case by simp
next
  case (Cons e al)
  show ?case
  proof (cases "fst e = iv")
    case True
    with Cons.prems have "snd e = k" "k \<notin> snd ` set al" "iv \<notin> fst ` set al" by auto
    with True show ?thesis by simp
  next
    case False
    with Cons.prems have m: "map_of al iv = Some k" by (cases e) auto
    then have "(iv, k) \<in> set al" by (rule map_of_SomeD)
    then have "k \<in> snd ` set al" by (rule rev_image_eqI) simp
    with Cons.prems(2) have "snd e \<noteq> k" by auto
    with False Cons.IH [OF _ _ m] Cons.prems show ?thesis by simp
  qed
qed

lemma set_delete_subset: "set (AList.delete iv al) \<subseteq> set al"
  by (induction al) auto

lemma startPreloading_inv:
  assumes "preload_inv s"
  shows "preload_inv (startPreloading maxConcurrent srcs s)"
proof -
  let ?new = "filter (\<lambda>k. map_of (rendered s) k = None) srcs"
  let ?s1 = "s\<lparr>isLoading := True, loadingQueue := loadingQueue s @ ?new,
                preloadedImages := fold init_entry ?new (preloadedImages s),
                next_invocation := Suc (next_invocation s)\<rparr>"
  from assms have fresh: "next_invocation s \<notin> fst ` set (awaiting s)"
    by (auto simp: preload_inv_def list_all_iff)
  from assms have "preload_inv ?s1"
    by (auto simp: preload_inv_def list_all_iff)
  from processQueue_loop_inv [OF this, of "next_invocation s" maxConcurrent] fresh
  have "preload_inv (processQueue_loop maxConcurrent (next_invocation s) ?s1)" by simp
  with assms show ?thesis
    by (simp add: startPreloading_def processQueue_def Let_def)
qed

lemma image_settles_inv:
  assumes "preload_inv s"
  shows "preload_inv (image_settles maxConcurrent iv success s)"
proof (cases "map_of (awaiting s) iv")
  case None
  with assms show ?thesis by (simp add: image_settles_def)
next
  case (Some k)
  let ?s1 = "s\<lparr>preloadedImages :=
                 AList.update k \<lparr>src = k, loaded = success, load_error = \<not> success\<rparr>
                   (preloadedImages s),
               activeLoads := set_delete k (activeLoads s),
               awaiting := AList.delete iv (awaiting s)\<rparr>"
  from assms have d: "distinct (map fst (awaiting s))" "distinct (map snd (awaiting s))"
    by (simp_all add: preload_inv_def)
  from removeAll_snd_delete [OF d Some] assms
  have act: "set_delete k (activeLoads s) = map snd (AList.delete iv (awaiting s))"
    by (simp add: set_delete_def preload_inv_def)
  from d(2) have "distinct (removeAll k (map snd (awaiting s)))" by (rule distinct_removeAll)
  with removeAll_snd_delete [OF d Some]
  have d2: "distinct (map snd (AList.delete iv (awaiting s)))" by simp
  have sub: "set (AList.delete iv (awaiting s)) \<subseteq> set (awaiting s)"
    by (rule set_delete_subset)
  from assms sub have "list_all (\<lambda>e. fst e < next_invocation s) (AList.delete iv (awaiting s))"
    by (auto simp: preload_inv_def list_all_iff)
  with act d d2 have inv1: "preload_inv ?s1"
    by (simp add: preload_inv_def distinct_delete)
  from Some have "(iv, k) \<in> set (awaiting s)" by (rule map_of_SomeD)
  with assms have lt: "iv < next_invocation ?s1"
    by (auto simp: preload_inv_def list_all_iff)
  have "iv \<notin> fst ` set (awaiting ?s1)" by (simp add: delete_notin_dom)
  from processQueue_loop_inv [OF inv1 this lt, of maxConcurrent] Some
  show ?thesis by (simp add: image_settles_def)
qed

lemma preload_step_inv: "preload_inv s \<Longrightarrow> preload_inv (preload_step maxConcurrent ev s)"
  by (cases ev) (simp_all add: startPreloading_inv image_settles_inv, simp add: preload_inv_def)

lemma preload_run_inv: "preload_inv s \<Longrightarrow> preload_inv (preload_run maxConcurrent evs s)"
  unfolding preload_run_def
  by (induction evs arbitrary: s) (simp_all add: preload_step_inv)

lemma initial_preload_inv: "preload_inv initial_preloader"
  by (simp add: preload_inv_def initial_preloader_def)

lemma distinct_fst_filter_le1:
  "distinct (map fst al) \<Longrightarrow> length (filter (\<lambda>e. fst e = iv) al) \<le> 1"
  by (induction al) (auto simp: filter_empty_conv image_iff)

text \<open>
  Claim C10. Within one invocation of \<open>processQueue\<close> the loads are sequential: the loop
  is suspended at the first load it begins and goes on only when that load has settled
  and its key is out of the active set. So, after any events of the page and for any
  \<open>maxConcurrent\<close> and any queue, the keys an invocation has made active and not yet
  taken out again are at most one, and the active set holds exactly the keys whose loads
  are awaited.
\<close>

theorem one_load_per_invocation:
  "length (active_of iv (preload_run maxConcurrent evs initial_preloader)) \<le> 1
   \<and> activeLoads (preload_run maxConcurrent evs initial_preloader)
       = map snd (awaiting (preload_run maxConcurrent evs initial_preloader))
   \<and> (awaiting (processQueue_loop maxConcurrent iv s) = awaiting s
      \<or> (\<exists>k. awaiting (processQueue_loop maxConcurrent iv s) = awaiting s @ [(iv, k)]))"
proof -
  have inv: "preload_inv (preload_run maxConcurrent evs initial_preloader)"
    by (rule preload_run_inv [OF initial_preload_inv])
  then have "distinct (map fst (awaiting (preload_run maxConcurrent evs initial_preloader)))"
    by (simp add: preload_inv_def)
  from distinct_fst_filter_le1 [OF this, of iv]
  have one: "length (active_of iv (preload_run maxConcurrent evs initial_preloader)) \<le> 1"
    by (simp add: active_of_def)
  from inv have "activeLoads (preload_run maxConcurrent evs initial_preloader)
       = map snd (awaiting (preload_run maxConcurrent evs initial_preloader))"
    by (simp add: preload_inv_def)
  with one processQueue_loop_awaiting [of maxConcurrent iv s] show ?thesis by simp
qed

subsection \<open>Deduplication\<close>

text \<open>No key is being loaded twice at one time.\<close>

lemma never_loaded_twice_at_once:
  "distinct (map snd (awaiting (preload_run maxConcurrent evs initial_preloader)))
   \<and> activeLoads (preload_run maxConcurrent evs initial_preloader)
       = map snd (awaiting (preload_run maxConcurrent evs initial_preloader))"
  using preload_run_inv [OF initial_preload_inv, of maxConcurrent evs]
  by (simp add: preload_inv_def)

text \<open>A call with keys that are all in the rendered map does nothing.\<close>

lemma startPreloading_tracked:
  "list_all (\<lambda>k. map_of (rendered s) k \<noteq> None) srcs \<Longrightarrow>
   startPreloading maxConcurrent srcs s = s"
  by (simp add: startPreloading_def list_all_iff filter_empty_conv)

text \<open>
  Claim C9. The claim says that a key scheduled twice before it settles is fetched once
  and that a settled key is not fetched again by scheduling alone. \<open>startPreloading\<close>
  filters the keys against the map of the last render only, so a list that names an image
  twice puts it in the queue twice; the loop skips a queued key only while that key is
  active, so it begins the second load once the first has settled. With
  \<open>maxConcurrent = 3\<close> the image is fetched twice, also when the render and the repeated
  call by the effect come between. Two calls of one closure with the same two keys do the
  same: the first key is fetched again after it has settled.
\<close>

theorem repeated_key_fetched_twice:
  "fetched (preload_run 3 twice_a initial_preloader) = [''a.jpg'', ''a.jpg'']
   \<and> fetch_count ''a.jpg'' (preload_run 3 twice_a_rendered initial_preloader) = 2
   \<and> fetched (preload_run 3 two_calls initial_preloader) = [''a.jpg'', ''b.jpg'', ''a.jpg'']"
  by (simp add: preload_run_def twice_a_def twice_a_rendered_def two_calls_def
                initial_preloader_def
                startPreloading_def processQueue_def processQueue_loop.simps
                image_settles_def init_entry_def set_add_def set_delete_def fetch_count_def
                Let_def)

end
